theory Spec2Isabelle
  imports Main "HOL-Library.Word" "HOL-Library.Signed_Division"
begin

unbundle bit_operations_syntax

section \<open>Data model of ldpi.c\<close>

text \<open>
  The three integer typedefs of the source. \<open>SWORD\<close> is a signed short: the same sixteen
  bits as \<open>WORD\<close>, read with \<open>sint\<close> wherever the C code uses its value.
\<close>

type_synonym BYTE = "8 word"
type_synonym WORD = "16 word"
type_synonym SWORD = "16 word"

text \<open>The struct \<open>BinOp\<close>: one instruction of the virtual machine.\<close>

record BinOp =
  op :: WORD
  name1 :: WORD
  name2 :: WORD
  name3 :: WORD
  literal :: SWORD

text \<open>
  The opcode constants come from \<open>intcode.h\<close>, which is not among the sources. They are
  taken as a parameter: a record with one field per macro that \<open>ldpi.c\<close> uses. A C
  compiler rejects a \<open>switch\<close> with two equal case labels, so the seventeen values are
  pairwise distinct in every build; \<open>distinct_codes\<close> states that.
\<close>

record intcode_h =
  INT_SET_BIT :: WORD
  INT_CLEAR_BIT :: WORD
  INT_COPY_BIT_TO_BIT :: WORD
  INT_SET_VARIABLE_TO_LITERAL :: WORD
  INT_SET_VARIABLE_TO_VARIABLE :: WORD
  INT_INCREMENT_VARIABLE :: WORD
  INT_SET_VARIABLE_ADD :: WORD
  INT_SET_VARIABLE_SUBTRACT :: WORD
  INT_SET_VARIABLE_MULTIPLY :: WORD
  INT_SET_VARIABLE_DIVIDE :: WORD
  INT_IF_BIT_SET :: WORD
  INT_IF_BIT_CLEAR :: WORD
  INT_IF_VARIABLE_LES_LITERAL :: WORD
  INT_IF_VARIABLE_EQUALS_VARIABLE :: WORD
  INT_IF_VARIABLE_GRT_VARIABLE :: WORD
  INT_ELSE :: WORD
  INT_END_OF_PROGRAM :: WORD

definition codes :: "intcode_h \<Rightarrow> WORD list" where
  "codes h =
     [INT_SET_BIT h, INT_CLEAR_BIT h, INT_COPY_BIT_TO_BIT h,
      INT_SET_VARIABLE_TO_LITERAL h, INT_SET_VARIABLE_TO_VARIABLE h,
      INT_INCREMENT_VARIABLE h, INT_SET_VARIABLE_ADD h, INT_SET_VARIABLE_SUBTRACT h,
      INT_SET_VARIABLE_MULTIPLY h, INT_SET_VARIABLE_DIVIDE h, INT_IF_BIT_SET h,
      INT_IF_BIT_CLEAR h, INT_IF_VARIABLE_LES_LITERAL h,
      INT_IF_VARIABLE_EQUALS_VARIABLE h, INT_IF_VARIABLE_GRT_VARIABLE h, INT_ELSE h,
      INT_END_OF_PROGRAM h]"

definition distinct_codes :: "intcode_h \<Rightarrow> bool" where
  "distinct_codes h = distinct (codes h)"

text \<open>
  The case labels of the two \<open>switch\<close> statements (they list the same seventeen labels in
  the same order), and the dispatch itself: \<open>None\<close> is the \<open>default\<close> position, reached
  when no label equals the value switched on.
\<close>

datatype label =
  SET_BIT | CLEAR_BIT | COPY_BIT_TO_BIT | SET_VARIABLE_TO_LITERAL
  | SET_VARIABLE_TO_VARIABLE | INCREMENT_VARIABLE | SET_VARIABLE_ADD
  | SET_VARIABLE_SUBTRACT | SET_VARIABLE_MULTIPLY | SET_VARIABLE_DIVIDE | IF_BIT_SET
  | IF_BIT_CLEAR | IF_VARIABLE_LES_LITERAL | IF_VARIABLE_EQUALS_VARIABLE
  | IF_VARIABLE_GRT_VARIABLE | ELSE | END_OF_PROGRAM

definition labels :: "label list" where
  "labels =
     [SET_BIT, CLEAR_BIT, COPY_BIT_TO_BIT, SET_VARIABLE_TO_LITERAL,
      SET_VARIABLE_TO_VARIABLE, INCREMENT_VARIABLE, SET_VARIABLE_ADD,
      SET_VARIABLE_SUBTRACT, SET_VARIABLE_MULTIPLY, SET_VARIABLE_DIVIDE, IF_BIT_SET,
      IF_BIT_CLEAR, IF_VARIABLE_LES_LITERAL, IF_VARIABLE_EQUALS_VARIABLE,
      IF_VARIABLE_GRT_VARIABLE, ELSE, END_OF_PROGRAM]"

definition switch :: "intcode_h \<Rightarrow> WORD \<Rightarrow> label option" where
  "switch h w =
     (if w = INT_SET_BIT h then Some SET_BIT
      else if w = INT_CLEAR_BIT h then Some CLEAR_BIT
      else if w = INT_COPY_BIT_TO_BIT h then Some COPY_BIT_TO_BIT
      else if w = INT_SET_VARIABLE_TO_LITERAL h then Some SET_VARIABLE_TO_LITERAL
      else if w = INT_SET_VARIABLE_TO_VARIABLE h then Some SET_VARIABLE_TO_VARIABLE
      else if w = INT_INCREMENT_VARIABLE h then Some INCREMENT_VARIABLE
      else if w = INT_SET_VARIABLE_ADD h then Some SET_VARIABLE_ADD
      else if w = INT_SET_VARIABLE_SUBTRACT h then Some SET_VARIABLE_SUBTRACT
      else if w = INT_SET_VARIABLE_MULTIPLY h then Some SET_VARIABLE_MULTIPLY
      else if w = INT_SET_VARIABLE_DIVIDE h then Some SET_VARIABLE_DIVIDE
      else if w = INT_IF_BIT_SET h then Some IF_BIT_SET
      else if w = INT_IF_BIT_CLEAR h then Some IF_BIT_CLEAR
      else if w = INT_IF_VARIABLE_LES_LITERAL h then Some IF_VARIABLE_LES_LITERAL
      else if w = INT_IF_VARIABLE_EQUALS_VARIABLE h then Some IF_VARIABLE_EQUALS_VARIABLE
      else if w = INT_IF_VARIABLE_GRT_VARIABLE h then Some IF_VARIABLE_GRT_VARIABLE
      else if w = INT_ELSE h then Some ELSE
      else if w = INT_END_OF_PROGRAM h then Some END_OF_PROGRAM
      else None)"

text \<open>
  The global variables. \<open>Program\<close>, \<open>Integers\<close> and \<open>Bits\<close> are the three arrays (of
  \<open>MAX_OPS\<close> = 1024, \<open>MAX_VARIABLES\<close> = 128 and \<open>MAX_INTERNAL_RELAYS\<close> = 128 elements in
  the source); the length of each list is the capacity of the array, which no definition
  below fixes. \<open>GPI ! k\<close> and \<open>GPO ! k\<close> are the
  sixteen variables \<open>GPIk\<close> and \<open>GPOk\<close>, for k from 0 to 7.
\<close>

record globals =
  Program :: "BinOp list"
  Integers :: "SWORD list"
  Bits :: "BYTE list"
  GPI :: "int list"
  GPO :: "int list"

text \<open>
  How a call of one of the C functions ends: it returns, the process exits through
  \<open>exit(-1)\<close>, or the call indexes an array outside its bounds (or passes a null pointer to
  a string function), which C leaves undefined.
\<close>

datatype 'a result = Returns 'a | Exits | Undefined

section \<open>The interpreter\<close>

text \<open>
  An expression on \<open>short\<close> operands is computed on \<open>int\<close> and stored back into a
  \<open>short\<close>; the store keeps the low sixteen bits (the conversion gcc documents).
\<close>

definition to_SWORD :: "int \<Rightarrow> SWORD" where
  "to_SWORD i = word_of_int i"

definition in_bounds :: "'a list \<Rightarrow> WORD \<Rightarrow> bool" where
  "in_bounds xs a = (unat a < length xs)"

text \<open>
  The \<open>switch\<close> statement of \<open>InterpretOneCycle\<close> on the instruction \<open>p\<close>, at program
  counter \<open>pc\<close>: \<open>Next g' pc'\<close> when the \<open>switch\<close> is left by \<open>break\<close> (or matches no
  label: it has no \<open>default\<close>) with the globals \<open>g'\<close> and the program counter \<open>pc'\<close>, which the
  loop then increments; \<open>Return g'\<close> at \<open>INT_END_OF_PROGRAM\<close>; \<open>Fault\<close> when an index is
  outside its array.
\<close>

datatype iteration = Next globals nat | Return globals | Fault

definition switch_body :: "intcode_h \<Rightarrow> BinOp \<Rightarrow> globals \<Rightarrow> nat \<Rightarrow> iteration" where
  "switch_body h p g pc =
     (let I = Integers g; B = Bits g in
      case switch h (op p) of
        Some SET_BIT \<Rightarrow>
          if in_bounds B (name1 p)
          then Next (g\<lparr>Bits := B[unat (name1 p) := 1]\<rparr>) pc else Fault
      | Some CLEAR_BIT \<Rightarrow>
          if in_bounds B (name1 p)
          then Next (g\<lparr>Bits := B[unat (name1 p) := 0]\<rparr>) pc else Fault
      | Some COPY_BIT_TO_BIT \<Rightarrow>
          if in_bounds B (name1 p) \<and> in_bounds B (name2 p)
          then Next (g\<lparr>Bits := B[unat (name1 p) := B ! unat (name2 p)]\<rparr>) pc else Fault
      | Some SET_VARIABLE_TO_LITERAL \<Rightarrow>
          if in_bounds I (name1 p)
          then Next (g\<lparr>Integers := I[unat (name1 p) := literal p]\<rparr>) pc else Fault
      | Some SET_VARIABLE_TO_VARIABLE \<Rightarrow>
          if in_bounds I (name1 p) \<and> in_bounds I (name2 p)
          then Next (g\<lparr>Integers := I[unat (name1 p) := I ! unat (name2 p)]\<rparr>) pc else Fault
      | Some INCREMENT_VARIABLE \<Rightarrow>
          if in_bounds I (name1 p)
          then Next (g\<lparr>Integers :=
                 I[unat (name1 p) := to_SWORD (sint (I ! unat (name1 p)) + 1)]\<rparr>) pc
          else Fault
      | Some SET_VARIABLE_ADD \<Rightarrow>
          if in_bounds I (name1 p) \<and> in_bounds I (name2 p) \<and> in_bounds I (name3 p)
          then Next (g\<lparr>Integers := I[unat (name1 p) :=
                 to_SWORD (sint (I ! unat (name2 p)) + sint (I ! unat (name3 p)))]\<rparr>) pc
          else Fault
      | Some SET_VARIABLE_SUBTRACT \<Rightarrow>
          if in_bounds I (name1 p) \<and> in_bounds I (name2 p) \<and> in_bounds I (name3 p)
          then Next (g\<lparr>Integers := I[unat (name1 p) :=
                 to_SWORD (sint (I ! unat (name2 p)) - sint (I ! unat (name3 p)))]\<rparr>) pc
          else Fault
      | Some SET_VARIABLE_MULTIPLY \<Rightarrow>
          if in_bounds I (name1 p) \<and> in_bounds I (name2 p) \<and> in_bounds I (name3 p)
          then Next (g\<lparr>Integers := I[unat (name1 p) :=
                 to_SWORD (sint (I ! unat (name2 p)) * sint (I ! unat (name3 p)))]\<rparr>) pc
          else Fault
      | Some SET_VARIABLE_DIVIDE \<Rightarrow>
          if \<not> in_bounds I (name3 p) then Fault
          else if I ! unat (name3 p) \<noteq> 0
          then if in_bounds I (name1 p) \<and> in_bounds I (name2 p)
               then Next (g\<lparr>Integers := I[unat (name1 p) :=
                      to_SWORD (sint (I ! unat (name2 p)) sdiv sint (I ! unat (name3 p)))]\<rparr>) pc
               else Fault
          else Next g pc
      | Some IF_BIT_SET \<Rightarrow>
          if \<not> in_bounds B (name1 p) then Fault
          else if B ! unat (name1 p) = 0 then Next g (unat (name3 p)) else Next g pc
      | Some IF_BIT_CLEAR \<Rightarrow>
          if \<not> in_bounds B (name1 p) then Fault
          else if B ! unat (name1 p) \<noteq> 0 then Next g (unat (name3 p)) else Next g pc
      | Some IF_VARIABLE_LES_LITERAL \<Rightarrow>
          if \<not> in_bounds I (name1 p) then Fault
          else if \<not> (sint (I ! unat (name1 p)) < sint (literal p))
          then Next g (unat (name3 p)) else Next g pc
      | Some IF_VARIABLE_EQUALS_VARIABLE \<Rightarrow>
          if \<not> (in_bounds I (name1 p) \<and> in_bounds I (name2 p)) then Fault
          else if \<not> (sint (I ! unat (name1 p)) = sint (I ! unat (name2 p)))
          then Next g (unat (name3 p)) else Next g pc
      | Some IF_VARIABLE_GRT_VARIABLE \<Rightarrow>
          if \<not> (in_bounds I (name1 p) \<and> in_bounds I (name2 p)) then Fault
          else if \<not> (sint (I ! unat (name1 p)) > sint (I ! unat (name2 p)))
          then Next g (unat (name3 p)) else Next g pc
      | Some ELSE \<Rightarrow> Next g (unat (name3 p))
      | Some END_OF_PROGRAM \<Rightarrow> Return g
      | None \<Rightarrow> Next g pc)"

text \<open>The body of the loop: \<open>p\<close> points to \<open>Program[pc]\<close>.\<close>

definition loop_body :: "intcode_h \<Rightarrow> globals \<Rightarrow> nat \<Rightarrow> iteration" where
  "loop_body h g pc = switch_body h (Program g ! pc) g pc"

text \<open>
  The loop \<open>for(pc = 0; ; pc++)\<close>. It has no exit condition of its own, so it is a partial
  function: \<open>None\<close> is a cycle that never returns. Fetching \<open>Program[pc]\<close> beyond the array
  is undefined.
\<close>

partial_function (option) interpret_from ::
  "intcode_h \<Rightarrow> globals \<Rightarrow> nat \<Rightarrow> globals result option" where
  "interpret_from h g pc =
     (if pc < length (Program g)
      then (case loop_body h g pc of
              Next g' pc' \<Rightarrow> interpret_from h g' (pc' + 1)
            | Return g' \<Rightarrow> Some (Returns g')
            | Fault \<Rightarrow> Some Undefined)
      else Some Undefined)"

definition InterpretOneCycle :: "intcode_h \<Rightarrow> globals \<Rightarrow> globals result option" where
  "InterpretOneCycle h g = interpret_from h g 0"

text \<open>
  \<open>n\<close> calls of \<open>InterpretOneCycle\<close> one after the other, as the loop of \<open>main\<close> makes them
  (the pin reads and writes between two calls are left out). The run stops at the first
  call that does not return.
\<close>

fun cycles :: "intcode_h \<Rightarrow> nat \<Rightarrow> globals \<Rightarrow> globals result option" where
  "cycles h 0 g = Some (Returns g)"
| "cycles h (Suc n) g =
     (case InterpretOneCycle h g of
        Some (Returns g') \<Rightarrow> cycles h n g'
      | r \<Rightarrow> r)"

text \<open>
  The iteration at \<open>pc\<close> changes no variable and leaves the \<open>switch\<close> with the program
  counter \<open>t\<close>, so that the cycle goes on as one that stands at \<open>t + 1\<close>.
\<close>

definition jumps :: "intcode_h \<Rightarrow> globals \<Rightarrow> nat \<Rightarrow> nat \<Rightarrow> bool" where
  "jumps h g pc t =
     (loop_body h g pc = Next g t \<and> interpret_from h g pc = interpret_from h g (t + 1))"

text \<open>
  An assignment of pairwise distinct values to the seventeen macros, for the concrete runs
  below.
\<close>

definition intcode :: intcode_h where
  "intcode =
     \<lparr>INT_SET_BIT = 1, INT_CLEAR_BIT = 2, INT_COPY_BIT_TO_BIT = 3,
      INT_SET_VARIABLE_TO_LITERAL = 4, INT_SET_VARIABLE_TO_VARIABLE = 5,
      INT_INCREMENT_VARIABLE = 6, INT_SET_VARIABLE_ADD = 7, INT_SET_VARIABLE_SUBTRACT = 8,
      INT_SET_VARIABLE_MULTIPLY = 9, INT_SET_VARIABLE_DIVIDE = 10, INT_IF_BIT_SET = 50,
      INT_IF_BIT_CLEAR = 51, INT_IF_VARIABLE_LES_LITERAL = 52,
      INT_IF_VARIABLE_EQUALS_VARIABLE = 53, INT_IF_VARIABLE_GRT_VARIABLE = 54,
      INT_ELSE = 60, INT_END_OF_PROGRAM = 255\<rparr>"

text \<open>An instruction with the given opcode and operands.\<close>

definition instr :: "WORD \<Rightarrow> WORD \<Rightarrow> WORD \<Rightarrow> WORD \<Rightarrow> SWORD \<Rightarrow> BinOp" where
  "instr c a1 a2 a3 l = \<lparr>op = c, name1 = a1, name2 = a2, name3 = a3, literal = l\<rparr>"

text \<open>The program of the jump test: skip the \<open>SET_BIT\<close> unless bit 0 is set.\<close>

definition jump_bias_program :: "intcode_h \<Rightarrow> BinOp list" where
  "jump_bias_program h =
     [instr (INT_IF_BIT_SET h) 0 0 1 0,
      instr (INT_SET_BIT h) 1 0 0 0,
      instr (INT_END_OF_PROGRAM h) 0 0 0 0]"

text \<open>
  Three more test programs: a division, an increment, and a program whose \<open>INT_ELSE\<close> at
  index 1 stores the target 0, so that the cycle goes on at index 1 again.
\<close>

definition divide_program :: "intcode_h \<Rightarrow> WORD \<Rightarrow> WORD \<Rightarrow> WORD \<Rightarrow> BinOp list" where
  "divide_program h d a b =
     [instr (INT_SET_VARIABLE_DIVIDE h) d a b 0, instr (INT_END_OF_PROGRAM h) 0 0 0 0]"

definition increment_program :: "intcode_h \<Rightarrow> WORD \<Rightarrow> BinOp list" where
  "increment_program h a =
     [instr (INT_INCREMENT_VARIABLE h) a 0 0 0, instr (INT_END_OF_PROGRAM h) 0 0 0 0]"

definition spin_program :: "intcode_h \<Rightarrow> BinOp list" where
  "spin_program h =
     [instr (INT_SET_BIT h) 0 0 0 0, instr (INT_ELSE h) 0 0 0 0,
      instr (INT_END_OF_PROGRAM h) 0 0 0 0]"

text \<open>
  A program with an opcode that is none of those of \<open>intcode\<close>, at index 2: the
  \<open>INT_ELSE\<close> at index 0 leads there, past the \<open>INT_END_OF_PROGRAM\<close> at index 1.
\<close>

definition unknown_opcode_program :: "BinOp list" where
  "unknown_opcode_program =
     [instr (INT_ELSE intcode) 0 0 1 0, instr (INT_END_OF_PROGRAM intcode) 0 0 0 0,
      instr 0 7 7 7 7, instr (INT_END_OF_PROGRAM intcode) 0 0 0 0]"

text \<open>
  The globals of a run: the three arrays with the given contents, the sixteen pin
  variables at -1.
\<close>

definition machine :: "BinOp list \<Rightarrow> SWORD list \<Rightarrow> BYTE list \<Rightarrow> globals" where
  "machine P I B =
     \<lparr>Program = P, Integers = I, Bits = B, GPI = replicate 8 (- 1), GPO = replicate 8 (- 1)\<rparr>"

section \<open>Properties of programs\<close>

text \<open>The six instructions that assign \<open>name3\<close> to the program counter.\<close>

definition is_jump :: "intcode_h \<Rightarrow> BinOp \<Rightarrow> bool" where
  "is_jump h p =
     (switch h (op p) \<in> Some ` {IF_BIT_SET, IF_BIT_CLEAR, IF_VARIABLE_LES_LITERAL,
        IF_VARIABLE_EQUALS_VARIABLE, IF_VARIABLE_GRT_VARIABLE, ELSE})"

text \<open>
  A well-formed program in the words of the specification: every opcode is one of the
  set, every jump target is an index of the program, and the last instruction is
  \<open>INT_END_OF_PROGRAM\<close>.
\<close>

definition well_formed :: "intcode_h \<Rightarrow> BinOp list \<Rightarrow> bool" where
  "well_formed h P =
     (P \<noteq> [] \<and> op (last P) = INT_END_OF_PROGRAM h \<and>
      (\<forall>p \<in> set P. op p \<in> set (codes h) \<and> (is_jump h p \<longrightarrow> unat (name3 p) < length P)))"

text \<open>
  Every jump goes forward: the instruction at \<open>i\<close> stores a \<open>name3\<close> of at least \<open>i\<close>, and
  the instruction \<open>name3 + 1\<close> where the cycle goes on is one of the program.
\<close>

definition forward_jumps :: "intcode_h \<Rightarrow> BinOp list \<Rightarrow> bool" where
  "forward_jumps h P =
     (\<forall>i < length P. is_jump h (P ! i) \<longrightarrow>
        i \<le> unat (name3 (P ! i)) \<and> unat (name3 (P ! i)) + 1 < length P)"

text \<open>
  The addresses an instruction uses lie inside the banks, of \<open>nI\<close> integers and \<open>nB\<close>
  bits.
\<close>

definition operands_in_bounds :: "intcode_h \<Rightarrow> nat \<Rightarrow> nat \<Rightarrow> BinOp \<Rightarrow> bool" where
  "operands_in_bounds h nI nB p =
     (case switch h (op p) of
        None \<Rightarrow> True
      | Some l \<Rightarrow>
          if l \<in> {SET_BIT, CLEAR_BIT, IF_BIT_SET, IF_BIT_CLEAR} then unat (name1 p) < nB
          else if l = COPY_BIT_TO_BIT then unat (name1 p) < nB \<and> unat (name2 p) < nB
          else if l \<in> {SET_VARIABLE_TO_LITERAL, INCREMENT_VARIABLE, IF_VARIABLE_LES_LITERAL}
          then unat (name1 p) < nI
          else if l \<in> {SET_VARIABLE_TO_VARIABLE, IF_VARIABLE_EQUALS_VARIABLE,
                        IF_VARIABLE_GRT_VARIABLE}
          then unat (name1 p) < nI \<and> unat (name2 p) < nI
          else if l \<in> {SET_VARIABLE_ADD, SET_VARIABLE_SUBTRACT, SET_VARIABLE_MULTIPLY,
                        SET_VARIABLE_DIVIDE}
          then unat (name1 p) < nI \<and> unat (name2 p) < nI \<and> unat (name3 p) < nI
          else True)"

text \<open>Two's-complement wrap of an integer into the range of a signed short.\<close>

definition wrap16 :: "int \<Rightarrow> int" where
  "wrap16 i = (i + 32768) mod 65536 - 32768"

section \<open>The disassembler\<close>

definition nl :: char where "nl = CHR 0x0A"
definition NUL :: char where "NUL = CHR 0x00"

text \<open>The conversions of \<open>printf\<close> that \<open>Disassemble\<close> uses.\<close>

definition digit_char :: "nat \<Rightarrow> char" where
  "digit_char d = ''0123456789abcdef'' ! (d mod 16)"

fun hex :: "nat \<Rightarrow> string" where
  "hex n = (if n < 16 then [digit_char n] else hex (n div 16) @ [digit_char (n mod 16)])"

fun dec :: "nat \<Rightarrow> string" where
  "dec n = (if n < 10 then [digit_char n] else dec (n div 10) @ [digit_char (n mod 10)])"

declare hex.simps [simp del] dec.simps [simp del]

text \<open>\<open>%03x\<close> and \<open>%04x\<close>: at least \<open>w\<close> hexadecimal digits, padded with zeros.\<close>

definition fmt_0x :: "nat \<Rightarrow> nat \<Rightarrow> string" where
  "fmt_0x w n = replicate (w - length (hex n)) CHR ''0'' @ hex n"

text \<open>\<open>%d\<close>.\<close>

definition fmt_d :: "int \<Rightarrow> string" where
  "fmt_d i = (if i < 0 then CHR ''-'' # dec (nat (- i)) else dec (nat i))"

text \<open>
  A \<open>WORD\<close> argument is promoted to a nonnegative \<open>int\<close>. A \<open>SWORD\<close> argument is promoted
  to an \<open>int\<close> of the same value, which \<open>%x\<close> reads as an unsigned int of 32 bits.
\<close>

definition x03 :: "WORD \<Rightarrow> string" where
  "x03 a = fmt_0x 3 (unat a)"

definition x04 :: "SWORD \<Rightarrow> string" where
  "x04 l = fmt_0x 4 (nat (sint l mod 2 ^ 32))"

text \<open>What the \<open>switch\<close> of \<open>Disassemble\<close> prints at each label, before the newline.\<close>

definition arith :: "char \<Rightarrow> BinOp \<Rightarrow> string" where
  "arith c p =
     ''int16s['' @ x03 (name1 p) @ ''] := int16s['' @ x03 (name2 p) @ ''] '' @ [c]
       @ '' int16s['' @ x03 (name3 p) @ '']''"

definition cond :: "BinOp \<Rightarrow> string" where
  "cond p = '' jump '' @ x03 (name3 p) @ ''+1''"

fun label_text :: "label \<Rightarrow> BinOp \<Rightarrow> string" where
  "label_text SET_BIT p = ''bits['' @ x03 (name1 p) @ ''] := 1''"
| "label_text CLEAR_BIT p = ''bits['' @ x03 (name1 p) @ ''] := 0''"
| "label_text COPY_BIT_TO_BIT p =
     ''bits['' @ x03 (name1 p) @ ''] := bits['' @ x03 (name2 p) @ '']''"
| "label_text SET_VARIABLE_TO_LITERAL p =
     ''int16s['' @ x03 (name1 p) @ ''] := '' @ fmt_d (sint (literal p)) @ '' (0x''
       @ x04 (literal p) @ '')''"
| "label_text SET_VARIABLE_TO_VARIABLE p =
     ''int16s['' @ x03 (name1 p) @ ''] := int16s['' @ x03 (name2 p) @ '']''"
| "label_text INCREMENT_VARIABLE p = ''(int16s['' @ x03 (name1 p) @ ''])++''"
| "label_text SET_VARIABLE_ADD p = arith CHR ''+'' p"
| "label_text SET_VARIABLE_SUBTRACT p = arith CHR ''-'' p"
| "label_text SET_VARIABLE_MULTIPLY p = arith CHR ''*'' p"
| "label_text SET_VARIABLE_DIVIDE p = arith CHR ''/'' p"
| "label_text IF_BIT_SET p = ''unless (bits['' @ x03 (name1 p) @ ''] set)'' @ cond p"
| "label_text IF_BIT_CLEAR p = ''unless (bits['' @ x03 (name1 p) @ ''] clear)'' @ cond p"
| "label_text IF_VARIABLE_LES_LITERAL p =
     ''unless (int16s['' @ x03 (name1 p) @ ''] < '' @ fmt_d (sint (literal p)) @ '')''
       @ cond p"
| "label_text IF_VARIABLE_EQUALS_VARIABLE p =
     ''unless (int16s['' @ x03 (name1 p) @ ''] == int16s['' @ x03 (name2 p) @ ''])''
       @ cond p"
| "label_text IF_VARIABLE_GRT_VARIABLE p =
     ''unless (int16s['' @ x03 (name1 p) @ ''] > int16s['' @ x03 (name2 p) @ ''])''
       @ cond p"
| "label_text ELSE p = ''jump '' @ x03 (name3 p) @ ''+1''"
| "label_text END_OF_PROGRAM p = ''<end of program>''"

text \<open>
  The text that one pass of the loop of \<open>Disassemble\<close> writes for the instruction \<open>p\<close> at
  \<open>pc\<close>, without the newline: the address, then the text of the label. At \<open>default\<close>
  only the address has been printed when \<open>BadFormat\<close> ends the process.
\<close>

definition line_text :: "intcode_h \<Rightarrow> nat \<Rightarrow> BinOp \<Rightarrow> string" where
  "line_text h pc p =
     fmt_0x 3 pc @ '': '' @ (case switch h (op p) of None \<Rightarrow> [] | Some l \<Rightarrow> label_text l p)"

text \<open>
  The loop of \<open>Disassemble\<close> from \<open>pc\<close> on, over the rest of the array from \<open>Program[pc]\<close>:
  the text written to the standard output, and how the call ends. Beyond the last element
  of the array the read is undefined.
\<close>

fun disassemble_from :: "intcode_h \<Rightarrow> nat \<Rightarrow> BinOp list \<Rightarrow> string \<times> unit result" where
  "disassemble_from h pc [] = ([], Undefined)"
| "disassemble_from h pc (p # ps) =
     (case switch h (op p) of
        None \<Rightarrow> (line_text h pc p, Exits)
      | Some END_OF_PROGRAM \<Rightarrow> (line_text h pc p @ [nl], Returns ())
      | Some l \<Rightarrow>
          (let (out, r) = disassemble_from h (pc + 1) ps
           in (line_text h pc p @ [nl] @ out, r)))"

definition Disassemble :: "intcode_h \<Rightarrow> globals \<Rightarrow> string \<times> unit result" where
  "Disassemble h g = disassemble_from h 0 (Program g)"

section \<open>The loader\<close>

subsection \<open>The C library functions that \<open>LoadProgram\<close> calls\<close>

text \<open>
  \<open>fgets\<close> into a buffer of \<open>n + 1\<close> bytes: at most \<open>n\<close> characters, up to and with the
  first newline. The result is the line read and the rest of the stream.
\<close>

fun fgets :: "nat \<Rightarrow> string \<Rightarrow> string \<times> string" where
  "fgets 0 s = ([], s)"
| "fgets (Suc n) [] = ([], [])"
| "fgets (Suc n) (c # s) =
     (if c = nl then ([c], s) else (let (l, r) = fgets n s in (c # l, r)))"

lemma fgets_shorter: "length (snd (fgets n s)) \<le> length s"
  by (induction n s rule: fgets.induct) (auto split: prod.splits)

text \<open>
  The lines that successive calls \<open>fgets(line, sizeof(line), f)\<close> return until the end of
  the file, \<open>line\<close> being of 80 bytes.
\<close>

function file_lines :: "string \<Rightarrow> string list" where
  "file_lines [] = []"
| "file_lines (c # s) = (let (l, r) = fgets 79 (c # s) in l # file_lines r)"
  by pat_completeness auto
termination
proof (relation "measure length")
  fix c s x l r
  assume "x = fgets 79 (c # s)" "(l, r) = x"
  then have "r = (if c = nl then s else snd (fgets 78 s))"
    by (simp add: numeral_eq_Suc split: prod.splits if_splits)
  then show "(r, c # s) \<in> measure length"
    using fgets_shorter [of 78 s] by (simp add: le_imp_less_Suc)
qed simp

declare file_lines.simps(2) [simp del]

text \<open>A buffer read as a C string ends before its first NUL.\<close>

definition cstr :: "string \<Rightarrow> string" where
  "cstr s = takeWhile (\<lambda>c. c \<noteq> NUL) s"

text \<open>\<open>strstr(s, n) != NULL\<close>: \<open>n\<close> occurs in \<open>s\<close>.\<close>

fun strstr :: "string \<Rightarrow> string \<Rightarrow> bool" where
  "strstr [] n = (n = [])"
| "strstr (c # s) n = (take (length n) (c # s) = n \<or> strstr s n)"

text \<open>
  \<open>strtok\<close>: the token that starts at the first character of \<open>s\<close> outside \<open>delims\<close> (\<open>None\<close>
  is the null pointer: there is no such character), and the text after the delimiter that
  ends the token, where the next call \<open>strtok(NULL, ...)\<close> goes on. The call overwrites
  that delimiter with NUL: \<open>strtok_buffer\<close> is the buffer, read as a C string, afterwards.
\<close>

definition strtok :: "string \<Rightarrow> string \<Rightarrow> string option \<times> string" where
  "strtok delims s =
     (let s1 = dropWhile (\<lambda>c. c \<in> set delims) s
      in if s1 = [] then (None, [])
         else (Some (takeWhile (\<lambda>c. c \<notin> set delims) s1),
               drop 1 (dropWhile (\<lambda>c. c \<notin> set delims) s1)))"

definition strtok_buffer :: "string \<Rightarrow> string \<Rightarrow> string" where
  "strtok_buffer delims s =
     takeWhile (\<lambda>c. c \<in> set delims) s
       @ takeWhile (\<lambda>c. c \<notin> set delims) (dropWhile (\<lambda>c. c \<in> set delims) s)"

text \<open>
  \<open>tolower\<close>, \<open>isdigit\<close> and \<open>isspace\<close> in the C locale, on the code of the character.
\<close>

definition tolower :: "char \<Rightarrow> char" where
  "tolower c =
     (if 65 \<le> (of_char c :: nat) \<and> (of_char c :: nat) \<le> 90
      then char_of ((of_char c :: nat) + 32) else c)"

definition isdigit :: "char \<Rightarrow> bool" where
  "isdigit c = (48 \<le> (of_char c :: nat) \<and> (of_char c :: nat) \<le> 57)"

definition isspace :: "char \<Rightarrow> bool" where
  "isspace c = ((of_char c :: nat) = 32 \<or> 9 \<le> (of_char c :: nat) \<and> (of_char c :: nat) \<le> 13)"

text \<open>
  \<open>atoi\<close>: white space, an optional sign, then the decimal digits up to the first
  character that is none. The C function returns this number when an \<open>int\<close> (of 32 bits)
  can hold it, and is undefined otherwise.
\<close>

definition digits_value :: "string \<Rightarrow> int" where
  "digits_value s =
     foldl (\<lambda>a c. 10 * a + (int (of_char c) - 48)) 0 (takeWhile isdigit s)"

definition atoi :: "string \<Rightarrow> int" where
  "atoi s =
     (case dropWhile isspace s of
        [] \<Rightarrow> 0
      | c # r \<Rightarrow>
          if c = CHR ''-'' then - digits_value r
          else if c = CHR ''+'' then digits_value r
          else digits_value (c # r))"

definition int_range :: "int \<Rightarrow> bool" where
  "int_range i = (- (2 ^ 31) \<le> i \<and> i < 2 ^ 31)"

subsection \<open>Instruction records\<close>

text \<open>
  \<open>HexDigit\<close>: \<open>None\<close> is the call of \<open>BadFormat\<close>, which ends the process. (A byte from 128
  on is no digit and no letter from a to f.)
\<close>

definition HexDigit :: "char \<Rightarrow> nat option" where
  "HexDigit c0 =
     (let c = tolower c0 in
      if isdigit c then Some ((of_char c :: nat) - 48)
      else if 97 \<le> (of_char c :: nat) \<and> (of_char c :: nat) \<le> 102
      then Some (((of_char c :: nat) - 97) + 10)
      else None)"

text \<open>
  The character \<open>t[k]\<close> of the line buffer, which holds the C string \<open>t\<close>: its NUL stands
  at index \<open>length t\<close>. The loop that reads a record stops at the first character that is
  no hexadecimal digit, which is this NUL at the latest, so that what the buffer holds
  after it never decides the outcome.
\<close>

definition char_at :: "string \<Rightarrow> nat \<Rightarrow> char" where
  "char_at t k = (if k < length t then t ! k else NUL)"

text \<open>
  The byte \<open>b[i] = HexDigit(t[1]) | (HexDigit(t[0]) << 4)\<close>, \<open>t\<close> having advanced by two
  characters for each byte before.
\<close>

definition load_byte :: "string \<Rightarrow> nat \<Rightarrow> BYTE option" where
  "load_byte t i =
     (case (HexDigit (char_at t (2 * i + 1)), HexDigit (char_at t (2 * i))) of
        (Some lo, Some hi) \<Rightarrow> Some (of_nat (lo OR push_bit 4 hi))
      | _ \<Rightarrow> None)"

text \<open>The loop over the bytes \<open>i\<close>, \<open>i + 1\<close>, ... of the record, \<open>n\<close> of them.\<close>

fun load_bytes :: "string \<Rightarrow> nat \<Rightarrow> nat \<Rightarrow> BYTE list option" where
  "load_bytes t i 0 = Some []"
| "load_bytes t i (Suc n) =
     (case load_byte t i of
        None \<Rightarrow> None
      | Some b \<Rightarrow> map_option ((#) b) (load_bytes t (i + 1) n))"

text \<open>
  The struct that the ten bytes written through \<open>b\<close> make: five fields of two bytes, one
  after the other, each with its low byte first (the layout on the Raspberry Pi, and on
  every little-endian machine).
\<close>

definition word_of_bytes :: "BYTE \<Rightarrow> BYTE \<Rightarrow> WORD" where
  "word_of_bytes lo hi = ucast lo OR push_bit 8 (ucast hi)"

definition BinOp_of_bytes :: "BYTE list \<Rightarrow> BinOp" where
  "BinOp_of_bytes b =
     \<lparr>op = word_of_bytes (b ! 0) (b ! 1), name1 = word_of_bytes (b ! 2) (b ! 3),
      name2 = word_of_bytes (b ! 4) (b ! 5), name3 = word_of_bytes (b ! 6) (b ! 7),
      literal = word_of_bytes (b ! 8) (b ! 9)\<rparr>"

definition sizeof_BinOp :: nat where "sizeof_BinOp = 10"

subsection \<open>The file of a program\<close>

text \<open>
  The line of the file that holds the instruction \<open>r\<close>: the ten bytes of the struct in
  the order of the memory, each as two hexadecimal digits, the high one first, and a
  newline. (The lines of a file that LDmicro writes have this form; the loader also reads
  capital letters and ignores what follows the twenty digits.)
\<close>

definition hex_byte :: "BYTE \<Rightarrow> string" where
  "hex_byte b = [digit_char (unat b div 16), digit_char (unat b mod 16)]"

definition bytes_of_BinOp :: "BinOp \<Rightarrow> BYTE list" where
  "bytes_of_BinOp r =
     [ucast (op r), ucast (drop_bit 8 (op r)), ucast (name1 r), ucast (drop_bit 8 (name1 r)),
      ucast (name2 r), ucast (drop_bit 8 (name2 r)), ucast (name3 r),
      ucast (drop_bit 8 (name3 r)), ucast (literal r), ucast (drop_bit 8 (literal r))]"

definition record_line :: "BinOp \<Rightarrow> string" where
  "record_line r = concat (map hex_byte (bytes_of_BinOp r)) @ [nl]"

subsection \<open>\<open>LoadProgram\<close>\<close>

text \<open>
  The first loop, \<open>for(pc = 0; ; pc++)\<close>, over the lines still to read: it returns at the
  line with \<open>$$bits\<close>, with the lines after it. \<open>BadFormat\<close> ends the process at the end of
  the file and at a character that is no hexadecimal digit. Past the end of \<open>Program\<close> the
  first byte stored is outside the array.
\<close>

fun load_code :: "string list \<Rightarrow> nat \<Rightarrow> globals \<Rightarrow> (string list \<times> globals) result" where
  "load_code [] pc g = Exits"
| "load_code (line # ls) pc g =
     (let t = cstr line in
      if strstr t ''$$bits'' then Returns (ls, g)
      else if pc < length (Program g)
      then (case load_bytes t 0 sizeof_BinOp of
              None \<Rightarrow> Exits
            | Some b \<Rightarrow> load_code ls (pc + 1) (g\<lparr>Program := (Program g)[pc := BinOp_of_bytes b]\<rparr>))
      else (case load_byte t 0 of None \<Rightarrow> Exits | Some b \<Rightarrow> Undefined))"

text \<open>
  \<open>if(strstr(symbol, name)) v = atoi(addr);\<close> for one of the sixteen variables: its value
  afterwards. \<open>atoi\<close> of a null pointer is undefined.
\<close>

definition assign :: "string \<Rightarrow> string option \<Rightarrow> string \<Rightarrow> int \<Rightarrow> int result" where
  "assign symbol addr name v =
     (if strstr symbol name
      then (case addr of
              None \<Rightarrow> Undefined
            | Some a \<Rightarrow> if int_range (atoi a) then Returns (atoi a) else Undefined)
      else Returns v)"

text \<open>
  The eight statements for \<open>GPI0\<close> to \<open>GPI7\<close> (and those for \<open>GPO0\<close> to \<open>GPO7\<close>):
  \<open>k\<close> is the number of the first variable of the list.
\<close>

fun assign_pins :: "string \<Rightarrow> string option \<Rightarrow> string \<Rightarrow> nat \<Rightarrow> int list \<Rightarrow> int list result" where
  "assign_pins symbol addr pre k [] = Returns []"
| "assign_pins symbol addr pre k (v # vs) =
     (case assign symbol addr (pre @ [digit_char k]) v of
        Returns v' \<Rightarrow>
          (case assign_pins symbol addr pre (k + 1) vs of
             Returns vs' \<Rightarrow> Returns (v' # vs')
           | Exits \<Rightarrow> Exits
           | Undefined \<Rightarrow> Undefined)
      | Exits \<Rightarrow> Exits
      | Undefined \<Rightarrow> Undefined)"

text \<open>
  The body of the second loop, on one line. \<open>strstr\<close> of a null \<open>symbol\<close> is undefined.
  (\<open>printf\<close> with a null \<open>addr\<close> prints \<open>(null)\<close> with the C library of the Raspberry Pi;
  what the loader prints is not modelled.) The test for \<open>$$cycle\<close> reads the buffer after
  \<open>strtok\<close> has cut it.
\<close>

definition symbol_line :: "string \<Rightarrow> globals \<Rightarrow> globals result" where
  "symbol_line line g =
     (let t = cstr line;
          (symbol, saved) = strtok '','' t;
          addr = fst (strtok ('','' @ [CHR 0x0D, nl]) saved);
          t' = strtok_buffer '','' t
      in case symbol of
           None \<Rightarrow> Undefined
         | Some tok \<Rightarrow>
             (case (assign_pins tok addr ''GPI'' 0 (GPI g), assign_pins tok addr ''GPO'' 0 (GPO g)) of
                (Returns gpi, Returns gpo) \<Rightarrow>
                  if strstr t' ''$$cycle''
                  then (let cycle = atoi (drop 7 t') in
                        if \<not> int_range cycle then Undefined
                        else if cycle \<noteq> 10 * 1000 then Exits
                        else Returns (g\<lparr>GPI := gpi, GPO := gpo\<rparr>))
                  else Returns (g\<lparr>GPI := gpi, GPO := gpo\<rparr>)
              | _ \<Rightarrow> Undefined))"

text \<open>The second loop, \<open>while(fgets(line, sizeof(line), f))\<close>.\<close>

fun load_symbols :: "string list \<Rightarrow> globals \<Rightarrow> globals result" where
  "load_symbols [] g = Returns g"
| "load_symbols (line # ls) g =
     (case symbol_line line g of
        Returns g' \<Rightarrow> load_symbols ls g'
      | Exits \<Rightarrow> Exits
      | Undefined \<Rightarrow> Undefined)"

text \<open>
  \<open>LoadProgram\<close> from the first \<open>fgets\<close> on, over the lines of the file; then the whole
  function, on the contents of the file (\<open>None\<close> when \<open>fopen\<close> fails).
\<close>

definition load_lines :: "string list \<Rightarrow> globals \<Rightarrow> globals result" where
  "load_lines lines g =
     (case lines of
        [] \<Rightarrow> Exits
      | line # ls \<Rightarrow>
          if \<not> strstr (cstr line) ''$$LDcode'' then Exits
          else (case load_code ls 0 (g\<lparr>GPI := replicate 8 (- 1), GPO := replicate 8 (- 1)\<rparr>) of
                  Returns (ls', g') \<Rightarrow> load_symbols ls' g'
                | Exits \<Rightarrow> Exits
                | Undefined \<Rightarrow> Undefined))"

definition LoadProgram :: "string option \<Rightarrow> globals \<Rightarrow> globals result" where
  "LoadProgram file g =
     (case file of
        None \<Rightarrow> Exits
      | Some contents \<Rightarrow> load_lines (file_lines contents) g)"

section \<open>The dispatch on the opcode\<close>

lemma switch_None: "switch h w = None \<longleftrightarrow> w \<notin> set (codes h)"
  by (simp add: switch_def codes_def)

lemma switch_map_of: "switch h w = map_of (zip (codes h) labels) w"
  by (simp add: switch_def codes_def labels_def)

lemma switch_at:
  assumes "distinct_codes h" "(w, l) \<in> set (zip (codes h) labels)"
  shows "switch h w = Some l"
proof -
  have "distinct (map fst (zip (codes h) labels))"
    using assms(1) by (simp add: distinct_codes_def codes_def labels_def)
  then show ?thesis
    using assms(2) by (simp add: switch_map_of)
qed

lemma switch_labels:
  assumes "distinct_codes h"
  shows "switch h (INT_SET_BIT h) = Some SET_BIT"
    "switch h (INT_CLEAR_BIT h) = Some CLEAR_BIT"
    "switch h (INT_COPY_BIT_TO_BIT h) = Some COPY_BIT_TO_BIT"
    "switch h (INT_SET_VARIABLE_TO_LITERAL h) = Some SET_VARIABLE_TO_LITERAL"
    "switch h (INT_SET_VARIABLE_TO_VARIABLE h) = Some SET_VARIABLE_TO_VARIABLE"
    "switch h (INT_INCREMENT_VARIABLE h) = Some INCREMENT_VARIABLE"
    "switch h (INT_SET_VARIABLE_ADD h) = Some SET_VARIABLE_ADD"
    "switch h (INT_SET_VARIABLE_SUBTRACT h) = Some SET_VARIABLE_SUBTRACT"
    "switch h (INT_SET_VARIABLE_MULTIPLY h) = Some SET_VARIABLE_MULTIPLY"
    "switch h (INT_SET_VARIABLE_DIVIDE h) = Some SET_VARIABLE_DIVIDE"
    "switch h (INT_IF_BIT_SET h) = Some IF_BIT_SET"
    "switch h (INT_IF_BIT_CLEAR h) = Some IF_BIT_CLEAR"
    "switch h (INT_IF_VARIABLE_LES_LITERAL h) = Some IF_VARIABLE_LES_LITERAL"
    "switch h (INT_IF_VARIABLE_EQUALS_VARIABLE h) = Some IF_VARIABLE_EQUALS_VARIABLE"
    "switch h (INT_IF_VARIABLE_GRT_VARIABLE h) = Some IF_VARIABLE_GRT_VARIABLE"
    "switch h (INT_ELSE h) = Some ELSE"
    "switch h (INT_END_OF_PROGRAM h) = Some END_OF_PROGRAM"
  by (rule switch_at [OF assms], simp add: codes_def labels_def)+

lemma distinct_intcode: "distinct_codes intcode"
  by (simp add: distinct_codes_def codes_def intcode_def)

lemma sint_eq_iff: "sint a = sint b \<longleftrightarrow> a = b"
  by (auto intro: signed_word_eqI)

lemma instr_sel [simp]:
  "op (instr c a1 a2 a3 l) = c" "name1 (instr c a1 a2 a3 l) = a1"
  "name2 (instr c a1 a2 a3 l) = a2" "name3 (instr c a1 a2 a3 l) = a3"
  "literal (instr c a1 a2 a3 l) = l"
  by (simp_all add: instr_def)

lemma switch_body_bits:
  assumes "distinct_codes h"
  shows
    "op p = INT_SET_BIT h \<Longrightarrow> in_bounds (Bits g) (name1 p) \<Longrightarrow>
       switch_body h p g pc = Next (g\<lparr>Bits := (Bits g)[unat (name1 p) := 1]\<rparr>) pc"
    "op p = INT_CLEAR_BIT h \<Longrightarrow> in_bounds (Bits g) (name1 p) \<Longrightarrow>
       switch_body h p g pc = Next (g\<lparr>Bits := (Bits g)[unat (name1 p) := 0]\<rparr>) pc"
    "op p = INT_COPY_BIT_TO_BIT h \<Longrightarrow> in_bounds (Bits g) (name1 p) \<Longrightarrow>
       in_bounds (Bits g) (name2 p) \<Longrightarrow>
       switch_body h p g pc =
         Next (g\<lparr>Bits := (Bits g)[unat (name1 p) := Bits g ! unat (name2 p)]\<rparr>) pc"
  by (simp_all add: switch_body_def Let_def switch_labels [OF assms])

lemma switch_body_moves:
  assumes "distinct_codes h"
  shows
    "op p = INT_SET_VARIABLE_TO_LITERAL h \<Longrightarrow> in_bounds (Integers g) (name1 p) \<Longrightarrow>
       switch_body h p g pc =
         Next (g\<lparr>Integers := (Integers g)[unat (name1 p) := literal p]\<rparr>) pc"
    "op p = INT_SET_VARIABLE_TO_VARIABLE h \<Longrightarrow> in_bounds (Integers g) (name1 p) \<Longrightarrow>
       in_bounds (Integers g) (name2 p) \<Longrightarrow>
       switch_body h p g pc =
         Next (g\<lparr>Integers := (Integers g)[unat (name1 p) := Integers g ! unat (name2 p)]\<rparr>) pc"
  by (simp_all add: switch_body_def Let_def switch_labels [OF assms])

lemma switch_body_arith:
  assumes "distinct_codes h"
  shows
    "op p = INT_INCREMENT_VARIABLE h \<Longrightarrow> in_bounds (Integers g) (name1 p) \<Longrightarrow>
       switch_body h p g pc =
         Next (g\<lparr>Integers := (Integers g)[unat (name1 p) :=
                 to_SWORD (sint (Integers g ! unat (name1 p)) + 1)]\<rparr>) pc"
    "op p = INT_SET_VARIABLE_ADD h \<Longrightarrow> in_bounds (Integers g) (name1 p) \<Longrightarrow>
       in_bounds (Integers g) (name2 p) \<Longrightarrow> in_bounds (Integers g) (name3 p) \<Longrightarrow>
       switch_body h p g pc =
         Next (g\<lparr>Integers := (Integers g)[unat (name1 p) :=
                 to_SWORD (sint (Integers g ! unat (name2 p))
                           + sint (Integers g ! unat (name3 p)))]\<rparr>) pc"
    "op p = INT_SET_VARIABLE_SUBTRACT h \<Longrightarrow> in_bounds (Integers g) (name1 p) \<Longrightarrow>
       in_bounds (Integers g) (name2 p) \<Longrightarrow> in_bounds (Integers g) (name3 p) \<Longrightarrow>
       switch_body h p g pc =
         Next (g\<lparr>Integers := (Integers g)[unat (name1 p) :=
                 to_SWORD (sint (Integers g ! unat (name2 p))
                           - sint (Integers g ! unat (name3 p)))]\<rparr>) pc"
    "op p = INT_SET_VARIABLE_MULTIPLY h \<Longrightarrow> in_bounds (Integers g) (name1 p) \<Longrightarrow>
       in_bounds (Integers g) (name2 p) \<Longrightarrow> in_bounds (Integers g) (name3 p) \<Longrightarrow>
       switch_body h p g pc =
         Next (g\<lparr>Integers := (Integers g)[unat (name1 p) :=
                 to_SWORD (sint (Integers g ! unat (name2 p))
                           * sint (Integers g ! unat (name3 p)))]\<rparr>) pc"
  by (simp_all add: switch_body_def Let_def switch_labels [OF assms])

lemma switch_body_divide:
  assumes "distinct_codes h" "op p = INT_SET_VARIABLE_DIVIDE h"
    "in_bounds (Integers g) (name3 p)"
  shows
    "Integers g ! unat (name3 p) = 0 \<Longrightarrow> switch_body h p g pc = Next g pc"
    "Integers g ! unat (name3 p) \<noteq> 0 \<Longrightarrow> in_bounds (Integers g) (name1 p) \<Longrightarrow>
       in_bounds (Integers g) (name2 p) \<Longrightarrow>
       switch_body h p g pc =
         Next (g\<lparr>Integers := (Integers g)[unat (name1 p) :=
                 to_SWORD (sint (Integers g ! unat (name2 p))
                           sdiv sint (Integers g ! unat (name3 p)))]\<rparr>) pc"
  using assms(2,3) by (simp_all add: switch_body_def Let_def switch_labels [OF assms(1)])

lemma switch_body_conditionals:
  assumes "distinct_codes h"
  shows
    "op p = INT_IF_BIT_SET h \<Longrightarrow> in_bounds (Bits g) (name1 p) \<Longrightarrow>
       switch_body h p g pc =
         Next g (if Bits g ! unat (name1 p) \<noteq> 0 then pc else unat (name3 p))"
    "op p = INT_IF_BIT_CLEAR h \<Longrightarrow> in_bounds (Bits g) (name1 p) \<Longrightarrow>
       switch_body h p g pc =
         Next g (if Bits g ! unat (name1 p) = 0 then pc else unat (name3 p))"
    "op p = INT_IF_VARIABLE_LES_LITERAL h \<Longrightarrow> in_bounds (Integers g) (name1 p) \<Longrightarrow>
       switch_body h p g pc =
         Next g (if sint (Integers g ! unat (name1 p)) < sint (literal p)
                 then pc else unat (name3 p))"
    "op p = INT_IF_VARIABLE_EQUALS_VARIABLE h \<Longrightarrow> in_bounds (Integers g) (name1 p) \<Longrightarrow>
       in_bounds (Integers g) (name2 p) \<Longrightarrow>
       switch_body h p g pc =
         Next g (if Integers g ! unat (name1 p) = Integers g ! unat (name2 p)
                 then pc else unat (name3 p))"
    "op p = INT_IF_VARIABLE_GRT_VARIABLE h \<Longrightarrow> in_bounds (Integers g) (name1 p) \<Longrightarrow>
       in_bounds (Integers g) (name2 p) \<Longrightarrow>
       switch_body h p g pc =
         Next g (if sint (Integers g ! unat (name1 p)) > sint (Integers g ! unat (name2 p))
                 then pc else unat (name3 p))"
    "op p = INT_ELSE h \<Longrightarrow> switch_body h p g pc = Next g (unat (name3 p))"
    "op p = INT_END_OF_PROGRAM h \<Longrightarrow> switch_body h p g pc = Return g"
  by (simp_all add: switch_body_def Let_def switch_labels [OF assms] sint_eq_iff)

lemma switch_body_default:
  "switch h (op p) = None \<Longrightarrow> switch_body h p g pc = Next g pc"
  by (simp add: switch_body_def)

lemma interpret_from_Next:
  "pc < length (Program g) \<Longrightarrow> switch_body h (Program g ! pc) g pc = Next g' pc' \<Longrightarrow>
   n = pc' + 1 \<Longrightarrow> interpret_from h g pc = interpret_from h g' n"
  by (subst interpret_from.simps) (simp add: loop_body_def)

lemma interpret_from_Return:
  "pc < length (Program g) \<Longrightarrow> switch_body h (Program g ! pc) g pc = Return g' \<Longrightarrow>
   interpret_from h g pc = Some (Returns g')"
  by (subst interpret_from.simps) (simp add: loop_body_def)

lemma jumpsI:
  "pc < length (Program g) \<Longrightarrow> switch_body h (Program g ! pc) g pc = Next g t \<Longrightarrow>
   jumps h g pc t"
  by (simp add: jumps_def loop_body_def interpret_from_Next [where pc' = t])

text \<open>
  Claim C1. Each of the five conditional instructions leaves the variables alone and
  either falls through (the condition it names holds: the program counter is unchanged,
  and the cycle goes on at \<open>pc + 1\<close>) or sets the program counter to \<open>name3\<close>, so that the
  cycle goes on at \<open>name3 + 1\<close>; \<open>INT_ELSE\<close> always does the latter. One cycle of the
  program of the jump test changes nothing when bit 0 is clear and sets bit 1 when bit 0
  is set, whatever follows the program in the array.
\<close>

theorem conditional_skip:
  assumes "distinct_codes h"
  shows
   "(pc < length (Program g) \<and> Program g ! pc = p \<longrightarrow>
      (op p = INT_IF_BIT_SET h \<and> in_bounds (Bits g) (name1 p) \<longrightarrow>
         jumps h g pc (if Bits g ! unat (name1 p) \<noteq> 0 then pc else unat (name3 p))) \<and>
      (op p = INT_IF_BIT_CLEAR h \<and> in_bounds (Bits g) (name1 p) \<longrightarrow>
         jumps h g pc (if Bits g ! unat (name1 p) = 0 then pc else unat (name3 p))) \<and>
      (op p = INT_IF_VARIABLE_LES_LITERAL h \<and> in_bounds (Integers g) (name1 p) \<longrightarrow>
         jumps h g pc (if sint (Integers g ! unat (name1 p)) < sint (literal p)
                       then pc else unat (name3 p))) \<and>
      (op p = INT_IF_VARIABLE_EQUALS_VARIABLE h \<and> in_bounds (Integers g) (name1 p)
         \<and> in_bounds (Integers g) (name2 p) \<longrightarrow>
         jumps h g pc (if Integers g ! unat (name1 p) = Integers g ! unat (name2 p)
                       then pc else unat (name3 p))) \<and>
      (op p = INT_IF_VARIABLE_GRT_VARIABLE h \<and> in_bounds (Integers g) (name1 p)
         \<and> in_bounds (Integers g) (name2 p) \<longrightarrow>
         jumps h g pc (if sint (Integers g ! unat (name1 p)) > sint (Integers g ! unat (name2 p))
                       then pc else unat (name3 p))) \<and>
      (op p = INT_ELSE h \<longrightarrow> jumps h g pc (unat (name3 p)))) \<and>
    (Program g = jump_bias_program h @ rest \<and> 2 \<le> length (Bits g) \<longrightarrow>
       InterpretOneCycle h g =
         Some (Returns (if Bits g ! 0 = 0 then g else g\<lparr>Bits := (Bits g)[1 := 1]\<rparr>)))"
proof (intro conjI impI; (elim conjE)?)
  assume "pc < length (Program g)" "Program g ! pc = p"
  then have J: "\<And>t. switch_body h p g pc = Next g t \<Longrightarrow> jumps h g pc t"
    by (simp add: jumpsI)
  note sb = switch_body_conditionals [OF assms]
  { assume "op p = INT_IF_BIT_SET h" "in_bounds (Bits g) (name1 p)"
    then show "jumps h g pc (if Bits g ! unat (name1 p) \<noteq> 0 then pc else unat (name3 p))"
      by (intro J sb) }
  { assume "op p = INT_IF_BIT_CLEAR h" "in_bounds (Bits g) (name1 p)"
    then show "jumps h g pc (if Bits g ! unat (name1 p) = 0 then pc else unat (name3 p))"
      by (intro J sb) }
  { assume "op p = INT_IF_VARIABLE_LES_LITERAL h" "in_bounds (Integers g) (name1 p)"
    then show "jumps h g pc (if sint (Integers g ! unat (name1 p)) < sint (literal p)
                       then pc else unat (name3 p))"
      by (intro J sb) }
  { assume "op p = INT_IF_VARIABLE_EQUALS_VARIABLE h" "in_bounds (Integers g) (name1 p)"
      "in_bounds (Integers g) (name2 p)"
    then show "jumps h g pc (if Integers g ! unat (name1 p) = Integers g ! unat (name2 p)
                       then pc else unat (name3 p))"
      by (intro J sb) }
  { assume "op p = INT_IF_VARIABLE_GRT_VARIABLE h" "in_bounds (Integers g) (name1 p)"
      "in_bounds (Integers g) (name2 p)"
    then show "jumps h g pc (if sint (Integers g ! unat (name1 p)) > sint (Integers g ! unat (name2 p))
                       then pc else unat (name3 p))"
      by (intro J sb) }
  { assume "op p = INT_ELSE h"
    then show "jumps h g pc (unat (name3 p))"
      by (intro J sb) }
next
  assume P: "Program g = jump_bias_program h @ rest" and B: "2 \<le> length (Bits g)"
  have len: "0 < length (Program g)" "1 < length (Program g)" "2 < length (Program g)"
    by (simp_all add: P jump_bias_program_def)
  have p0: "Program g ! 0 = instr (INT_IF_BIT_SET h) 0 0 1 0"
    and p1: "Program g ! Suc 0 = instr (INT_SET_BIT h) 1 0 0 0"
    and p2: "Program g ! 2 = instr (INT_END_OF_PROGRAM h) 0 0 0 0"
    by (simp_all add: P jump_bias_program_def)
  have ib: "in_bounds (Bits g) 0" "in_bounds (Bits g) 1"
    using B by (auto simp add: in_bounds_def)
  let ?g = "g\<lparr>Bits := (Bits g)[1 := 1]\<rparr>"
  have s0: "interpret_from h g 0 = interpret_from h g (if Bits g ! 0 = 0 then 2 else 1)"
    using len(1) unfolding p0
    by (rule interpret_from_Next [where pc' = "if Bits g ! 0 = 0 then 1 else 0"])
      (simp_all add: p0 switch_body_conditionals [OF assms] ib)
  have s1: "interpret_from h g 1 = interpret_from h ?g 2"
    using len(2)
    by (rule interpret_from_Next [where pc' = 1])
      (simp_all add: p1 switch_body_bits [OF assms] ib)
  have s2: "interpret_from h g' 2 = Some (Returns g')" if "Program g' = Program g" for g'
    by (rule interpret_from_Return)
      (simp_all add: that len p2 switch_body_conditionals [OF assms])
  show "InterpretOneCycle h g =
         Some (Returns (if Bits g ! 0 = 0 then g else g\<lparr>Bits := (Bits g)[1 := 1]\<rparr>))"
    by (simp add: InterpretOneCycle_def s0 s1 s2 del: One_nat_def)
qed

lemma intcode_simps:
  "INT_SET_BIT intcode = 1" "INT_CLEAR_BIT intcode = 2" "INT_COPY_BIT_TO_BIT intcode = 3"
  "INT_SET_VARIABLE_TO_LITERAL intcode = 4" "INT_SET_VARIABLE_TO_VARIABLE intcode = 5"
  "INT_INCREMENT_VARIABLE intcode = 6" "INT_SET_VARIABLE_ADD intcode = 7"
  "INT_SET_VARIABLE_SUBTRACT intcode = 8" "INT_SET_VARIABLE_MULTIPLY intcode = 9"
  "INT_SET_VARIABLE_DIVIDE intcode = 10" "INT_IF_BIT_SET intcode = 50"
  "INT_IF_BIT_CLEAR intcode = 51" "INT_IF_VARIABLE_LES_LITERAL intcode = 52"
  "INT_IF_VARIABLE_EQUALS_VARIABLE intcode = 53" "INT_IF_VARIABLE_GRT_VARIABLE intcode = 54"
  "INT_ELSE intcode = 60" "INT_END_OF_PROGRAM intcode = 255"
  by (simp_all add: intcode_def)

lemma machine_sel [simp]:
  "Program (machine P I B) = P" "Integers (machine P I B) = I" "Bits (machine P I B) = B"
  by (simp_all add: machine_def)

theorem conditional_skip_witness:
  "distinct_codes intcode \<and>
   jumps intcode (machine (jump_bias_program intcode) [] [0, 0]) 0 1 \<and>
   jumps intcode (machine (jump_bias_program intcode) [] [1, 0]) 0 0 \<and>
   jumps intcode (machine [instr (INT_IF_BIT_CLEAR intcode) 0 0 5 0] [] [0]) 0 0 \<and>
   jumps intcode (machine [instr (INT_IF_VARIABLE_LES_LITERAL intcode) 0 0 5 3] [3] []) 0 5 \<and>
   jumps intcode (machine [instr (INT_IF_VARIABLE_EQUALS_VARIABLE intcode) 0 1 5 0] [3, 4] []) 0 5 \<and>
   jumps intcode (machine [instr (INT_IF_VARIABLE_GRT_VARIABLE intcode) 0 1 5 0] [- 1, - 2] []) 0 0 \<and>
   jumps intcode (machine [instr (INT_ELSE intcode) 0 0 5 0] [] []) 0 5 \<and>
   InterpretOneCycle intcode (machine (jump_bias_program intcode) [] [0, 0]) =
     Some (Returns (machine (jump_bias_program intcode) [] [0, 0])) \<and>
   InterpretOneCycle intcode (machine (jump_bias_program intcode) [] [1, 0]) =
     Some (Returns (machine (jump_bias_program intcode) [] [1, 1]))"
  using
    conditional_skip [OF distinct_intcode, of 0 "machine (jump_bias_program intcode) [] [0, 0]"
      "instr (INT_IF_BIT_SET intcode) 0 0 1 0" "[]"]
    conditional_skip [OF distinct_intcode, of 0 "machine (jump_bias_program intcode) [] [1, 0]"
      "instr (INT_IF_BIT_SET intcode) 0 0 1 0" "[]"]
    conditional_skip [OF distinct_intcode, of 0
      "machine [instr (INT_IF_BIT_CLEAR intcode) 0 0 5 0] [] [0]"
      "instr (INT_IF_BIT_CLEAR intcode) 0 0 5 0" "[]"]
    conditional_skip [OF distinct_intcode, of 0
      "machine [instr (INT_IF_VARIABLE_LES_LITERAL intcode) 0 0 5 3] [3] []"
      "instr (INT_IF_VARIABLE_LES_LITERAL intcode) 0 0 5 3" "[]"]
    conditional_skip [OF distinct_intcode, of 0
      "machine [instr (INT_IF_VARIABLE_EQUALS_VARIABLE intcode) 0 1 5 0] [3, 4] []"
      "instr (INT_IF_VARIABLE_EQUALS_VARIABLE intcode) 0 1 5 0" "[]"]
    conditional_skip [OF distinct_intcode, of 0
      "machine [instr (INT_IF_VARIABLE_GRT_VARIABLE intcode) 0 1 5 0] [- 1, - 2] []"
      "instr (INT_IF_VARIABLE_GRT_VARIABLE intcode) 0 1 5 0" "[]"]
    conditional_skip [OF distinct_intcode, of 0
      "machine [instr (INT_ELSE intcode) 0 0 5 0] [] []"
      "instr (INT_ELSE intcode) 0 0 5 0" "[]"]
  by (simp add: distinct_intcode machine_def jump_bias_program_def in_bounds_def intcode_simps)

lemma sint_to_SWORD: "sint (to_SWORD i) = wrap16 i"
  by (simp add: to_SWORD_def wrap16_def sint_sbintrunc' signed_take_bit_eq_take_bit_shift
      take_bit_eq_mod)

lemma to_SWORD_32768: "to_SWORD 32768 = - 32768"
  by (simp add: to_SWORD_def)

lemma to_SWORD_below: "to_SWORD (- 32769) = 32767"
  by (simp add: to_SWORD_def)

lemma wrap16_id: "- 32768 \<le> i \<Longrightarrow> i < 32768 \<Longrightarrow> wrap16 i = i"
  by (simp add: wrap16_def)

lemma sint_SWORD_range: "- 32768 \<le> sint (w :: SWORD)" "sint (w :: SWORD) < 32768"
  using sint_ge [of w] sint_lt [of w] by simp_all

lemma sdiv_int_bounds:
  fixes a b :: int
  assumes "- 32768 \<le> a" "a < 32768" "\<not> (a = - 32768 \<and> b = - 1)"
  shows "- 32768 \<le> a sdiv b \<and> a sdiv b < 32768"
proof -
  have r: "- \<bar>a\<bar> \<le> a sdiv b" "a sdiv b \<le> \<bar>a\<bar>"
    using sdiv_int_range [of a b] by simp_all
  show ?thesis
  proof (cases "a = - 32768")
    case False
    then show ?thesis using r assms by (simp add: abs_if split: if_splits)
  next
    case True
    then have b: "b \<noteq> - 1" using assms by simp
    have "a sdiv b < 32768"
    proof (cases "b < 0")
      case False
      then have "a sdiv b \<le> 0"
        using True by (simp add: signed_divide_int_def sgn_if pos_imp_zdiv_nonneg_iff)
      then show ?thesis by simp
    next
      case neg: True
      with b have "2 \<le> \<bar>b\<bar>" by simp
      then have "\<bar>a\<bar> div \<bar>b\<bar> \<le> \<bar>a\<bar> div 2"
        by (intro zdiv_mono2) simp_all
      then show ?thesis
        using True neg by (simp add: signed_divide_int_def sgn_if)
    qed
    then show ?thesis using r True by simp
  qed
qed

section \<open>An opcode outside the set\<close>

text \<open>
  Claim C5 (the code does not do what the claim says). A cycle of the program with the
  unknown opcode fetches the instruction at index 2, whose opcode 0 is none of the
  seventeen values of \<open>intcode\<close>, passes over it without any effect (the \<open>switch\<close> of
  \<open>InterpretOneCycle\<close> has no \<open>default\<close>) and returns with every variable as it was.
  \<open>Disassemble\<close>, which stops at index 1, has not met the opcode. Where it does meet one,
  as in the last program, its \<open>switch\<close> has a \<open>default\<close> that calls \<open>BadFormat\<close> and ends
  the process.
\<close>

theorem unknown_opcode_ignored:
  "switch intcode 0 = None \<and>
   loop_body intcode (machine unknown_opcode_program [] []) 2 =
     Next (machine unknown_opcode_program [] []) 2 \<and>
   InterpretOneCycle intcode (machine unknown_opcode_program [] []) =
     Some (Returns (machine unknown_opcode_program [] [])) \<and>
   snd (Disassemble intcode (machine unknown_opcode_program [] [])) = Returns () \<and>
   snd (Disassemble intcode (machine [instr 0 7 7 7 7, instr 255 0 0 0 0] [] [])) = Exits"
proof -
  let ?g = "machine unknown_opcode_program [] []"
  have n: "switch intcode 0 = None"
    by (simp add: switch_None codes_def intcode_simps)
  have P: "Program ?g = unknown_opcode_program"
    by simp
  have b2: "loop_body intcode ?g 2 = Next ?g 2"
    by (simp add: loop_body_def unknown_opcode_program_def switch_body_default n)
  have "interpret_from intcode ?g 0 = interpret_from intcode ?g 2"
    by (rule interpret_from_Next [where pc' = 1])
      (simp_all add: P unknown_opcode_program_def switch_body_conditionals [OF distinct_intcode])
  also have "\<dots> = interpret_from intcode ?g 3"
    by (rule interpret_from_Next [where pc' = 2])
      (simp_all add: P unknown_opcode_program_def switch_body_default n)
  also have "\<dots> = Some (Returns ?g)"
    by (rule interpret_from_Return)
      (simp_all add: P unknown_opcode_program_def switch_body_conditionals [OF distinct_intcode])
  finally have run: "InterpretOneCycle intcode ?g = Some (Returns ?g)"
    by (simp add: InterpretOneCycle_def)
  have d1: "snd (Disassemble intcode ?g) = Returns ()"
    by (simp add: Disassemble_def P unknown_opcode_program_def
        switch_labels [OF distinct_intcode] split_def)
  have d2: "snd (Disassemble intcode (machine [instr 0 7 7 7 7, instr 255 0 0 0 0] [] [])) = Exits"
    by (simp add: Disassemble_def machine_def n)
  show ?thesis
    using n b2 run d1 d2 by simp
qed

lemma cycles_fixed:
  "InterpretOneCycle h g = Some (Returns g) \<Longrightarrow> cycles h n g = Some (Returns g)"
  by (induction n) simp_all

section \<open>Division\<close>

text \<open>
  Claim C3. At \<open>INT_SET_VARIABLE_DIVIDE\<close> with a divisor of zero no variable changes and
  the cycle goes on at the next instruction; with another divisor the destination becomes
  the quotient of the C division (which truncates towards zero), stored into a short:
  the quotient itself, but for -32768 / -1. Any number of cycles of the division program
  with a zero divisor return with every variable as it was.
\<close>

theorem divide_by_zero:
  assumes "distinct_codes h"
  shows
   "(pc < length (Program g) \<and> Program g ! pc = p \<and> op p = INT_SET_VARIABLE_DIVIDE h
       \<and> in_bounds (Integers g) (name3 p) \<longrightarrow>
      (Integers g ! unat (name3 p) = 0 \<longrightarrow> jumps h g pc pc) \<and>
      (Integers g ! unat (name3 p) \<noteq> 0 \<and> in_bounds (Integers g) (name1 p)
         \<and> in_bounds (Integers g) (name2 p) \<longrightarrow>
         loop_body h g pc =
           Next (g\<lparr>Integers := (Integers g)[unat (name1 p) :=
                   to_SWORD (sint (Integers g ! unat (name2 p))
                             sdiv sint (Integers g ! unat (name3 p)))]\<rparr>) pc)) \<and>
    (\<not> (x = (- 32768 :: SWORD) \<and> y = (- 1 :: SWORD)) \<longrightarrow>
       sint (to_SWORD (sint x sdiv sint y)) = sint x sdiv sint y) \<and>
    (Program g = divide_program h d a b @ rest \<and> in_bounds (Integers g) b
       \<and> Integers g ! unat b = 0 \<longrightarrow>
       cycles h n g = Some (Returns g))"
proof (intro conjI impI; (elim conjE)?)
  assume *: "pc < length (Program g)" "Program g ! pc = p"
    "op p = INT_SET_VARIABLE_DIVIDE h" "in_bounds (Integers g) (name3 p)"
  { assume "Integers g ! unat (name3 p) = 0"
    then show "jumps h g pc pc"
      using * by (intro jumpsI) (simp_all add: switch_body_divide [OF assms]) }
  { assume "Integers g ! unat (name3 p) \<noteq> 0" "in_bounds (Integers g) (name1 p)"
      "in_bounds (Integers g) (name2 p)"
    then show "loop_body h g pc =
           Next (g\<lparr>Integers := (Integers g)[unat (name1 p) :=
                   to_SWORD (sint (Integers g ! unat (name2 p))
                             sdiv sint (Integers g ! unat (name3 p)))]\<rparr>) pc"
      using * by (simp add: loop_body_def switch_body_divide [OF assms]) }
next
  assume "\<not> (x = - 32768 \<and> y = - 1)"
  then have "\<not> (sint x = - 32768 \<and> sint y = - 1)"
    using sint_eq_iff [of x "- 32768"] sint_eq_iff [of y "- 1"] by simp
  then show "sint (to_SWORD (sint x sdiv sint y)) = sint x sdiv sint y"
    using sdiv_int_bounds [of "sint x" "sint y"] sint_SWORD_range [of x]
    by (simp add: sint_to_SWORD wrap16_id)
next
  assume P: "Program g = divide_program h d a b @ rest" and b: "in_bounds (Integers g) b"
    and z: "Integers g ! unat b = 0"
  have "interpret_from h g 0 = interpret_from h g 1"
    by (rule interpret_from_Next [where pc' = 0])
      (simp_all add: P divide_program_def switch_body_divide [OF assms] b z)
  also have "\<dots> = Some (Returns g)"
    by (rule interpret_from_Return)
      (simp_all add: P divide_program_def switch_body_conditionals [OF assms])
  finally show "cycles h n g = Some (Returns g)"
    by (intro cycles_fixed) (simp add: InterpretOneCycle_def)
qed

theorem divide_by_zero_witness:
  "distinct_codes intcode \<and>
   jumps intcode (machine (divide_program intcode 2 0 1) [5, 0, 9] []) 0 0 \<and>
   cycles intcode 3 (machine (divide_program intcode 2 0 1) [5, 0, 9] []) =
     Some (Returns (machine (divide_program intcode 2 0 1) [5, 0, 9] [])) \<and>
   loop_body intcode (machine (divide_program intcode 2 0 1) [- 7, 2, 9] []) 0 =
     Next (machine (divide_program intcode 2 0 1) [- 7, 2, - 3] []) 0 \<and>
   sint (to_SWORD (sint (- 7 :: SWORD) sdiv sint (2 :: SWORD))) = - 3"
  using
    divide_by_zero [OF distinct_intcode, of 0 "machine (divide_program intcode 2 0 1) [5, 0, 9] []"
      "instr (INT_SET_VARIABLE_DIVIDE intcode) 2 0 1 0" "- 7" 2 2 0 1 "[]" 3]
    divide_by_zero [OF distinct_intcode, of 0 "machine (divide_program intcode 2 0 1) [- 7, 2, 9] []"
      "instr (INT_SET_VARIABLE_DIVIDE intcode) 2 0 1 0" "- 7" 2 2 0 1 "[]" 3]
  by (simp add: distinct_intcode machine_def divide_program_def in_bounds_def to_SWORD_def
      intcode_simps)

lemma increment_program_run:
  assumes "distinct_codes h" and P: "Program g = increment_program h a @ rest"
    and a: "in_bounds (Integers g) a"
  shows "InterpretOneCycle h g =
    Some (Returns (g\<lparr>Integers := (Integers g)[unat a :=
      to_SWORD (sint (Integers g ! unat a) + 1)]\<rparr>))"
proof -
  let ?g = "g\<lparr>Integers := (Integers g)[unat a := to_SWORD (sint (Integers g ! unat a) + 1)]\<rparr>"
  have "interpret_from h g 0 = interpret_from h ?g 1"
    by (rule interpret_from_Next [where pc' = 0])
      (simp_all add: P increment_program_def switch_body_arith [OF assms(1)] a)
  also have "\<dots> = Some (Returns ?g)"
    by (rule interpret_from_Return)
      (simp_all add: P increment_program_def switch_body_conditionals [OF assms(1)])
  finally show ?thesis
    by (simp add: InterpretOneCycle_def)
qed

section \<open>Arithmetic\<close>

text \<open>
  Claim C6. \<open>INT_INCREMENT_VARIABLE\<close>, \<open>INT_SET_VARIABLE_ADD\<close>, \<open>INT_SET_VARIABLE_SUBTRACT\<close>
  and \<open>INT_SET_VARIABLE_MULTIPLY\<close> all store the exact result of the operation through
  the one conversion \<open>to_SWORD\<close>, whose value is the result wrapped into the sixteen bits
  of two's complement. An increment of 32767 gives -32768, also as a cycle of the
  increment program.
\<close>

theorem arithmetic_wraps:
  assumes "distinct_codes h"
  shows
   "(\<forall>i. sint (to_SWORD i) = wrap16 i) \<and>
    (pc < length (Program g) \<and> Program g ! pc = p \<and> in_bounds (Integers g) (name1 p) \<longrightarrow>
      (op p = INT_INCREMENT_VARIABLE h \<longrightarrow>
         loop_body h g pc =
           Next (g\<lparr>Integers := (Integers g)[unat (name1 p) :=
                   to_SWORD (sint (Integers g ! unat (name1 p)) + 1)]\<rparr>) pc) \<and>
      (in_bounds (Integers g) (name2 p) \<and> in_bounds (Integers g) (name3 p) \<longrightarrow>
         (op p = INT_SET_VARIABLE_ADD h \<longrightarrow>
            loop_body h g pc =
              Next (g\<lparr>Integers := (Integers g)[unat (name1 p) :=
                      to_SWORD (sint (Integers g ! unat (name2 p))
                                + sint (Integers g ! unat (name3 p)))]\<rparr>) pc) \<and>
         (op p = INT_SET_VARIABLE_SUBTRACT h \<longrightarrow>
            loop_body h g pc =
              Next (g\<lparr>Integers := (Integers g)[unat (name1 p) :=
                      to_SWORD (sint (Integers g ! unat (name2 p))
                                - sint (Integers g ! unat (name3 p)))]\<rparr>) pc) \<and>
         (op p = INT_SET_VARIABLE_MULTIPLY h \<longrightarrow>
            loop_body h g pc =
              Next (g\<lparr>Integers := (Integers g)[unat (name1 p) :=
                      to_SWORD (sint (Integers g ! unat (name2 p))
                                * sint (Integers g ! unat (name3 p)))]\<rparr>) pc))) \<and>
    to_SWORD (sint (32767 :: SWORD) + 1) = - 32768 \<and> sint (- 32768 :: SWORD) = - 32768 \<and>
    (Program g = increment_program h a @ rest \<and> in_bounds (Integers g) a
       \<and> Integers g ! unat a = 32767 \<longrightarrow>
       InterpretOneCycle h g =
         Some (Returns (g\<lparr>Integers := (Integers g)[unat a := - 32768]\<rparr>)))"
proof (intro conjI impI allI; (elim conjE)?)
  show "sint (to_SWORD i) = wrap16 i" for i
    by (rule sint_to_SWORD)
  show w: "to_SWORD (sint (32767 :: SWORD) + 1) = - 32768"
    by (simp add: to_SWORD_def)
  show "sint (- 32768 :: SWORD) = - 32768"
    by simp
  { assume P: "Program g = increment_program h a @ rest" and a: "in_bounds (Integers g) a"
      and v: "Integers g ! unat a = 32767"
    show "InterpretOneCycle h g =
         Some (Returns (g\<lparr>Integers := (Integers g)[unat a := - 32768]\<rparr>))"
      using increment_program_run [OF assms P a] by (simp add: v to_SWORD_32768) }
next
  assume *: "pc < length (Program g)" "Program g ! pc = p" "in_bounds (Integers g) (name1 p)"
  note sb = switch_body_arith [OF assms]
  { assume "op p = INT_INCREMENT_VARIABLE h"
    then show "loop_body h g pc =
           Next (g\<lparr>Integers := (Integers g)[unat (name1 p) :=
                   to_SWORD (sint (Integers g ! unat (name1 p)) + 1)]\<rparr>) pc"
      using * by (simp add: loop_body_def sb) }
  assume **: "in_bounds (Integers g) (name2 p)" "in_bounds (Integers g) (name3 p)"
  { assume "op p = INT_SET_VARIABLE_ADD h"
    then show "loop_body h g pc =
              Next (g\<lparr>Integers := (Integers g)[unat (name1 p) :=
                      to_SWORD (sint (Integers g ! unat (name2 p))
                                + sint (Integers g ! unat (name3 p)))]\<rparr>) pc"
      using * ** by (simp add: loop_body_def sb) }
  { assume "op p = INT_SET_VARIABLE_SUBTRACT h"
    then show "loop_body h g pc =
              Next (g\<lparr>Integers := (Integers g)[unat (name1 p) :=
                      to_SWORD (sint (Integers g ! unat (name2 p))
                                - sint (Integers g ! unat (name3 p)))]\<rparr>) pc"
      using * ** by (simp add: loop_body_def sb) }
  { assume "op p = INT_SET_VARIABLE_MULTIPLY h"
    then show "loop_body h g pc =
              Next (g\<lparr>Integers := (Integers g)[unat (name1 p) :=
                      to_SWORD (sint (Integers g ! unat (name2 p))
                                * sint (Integers g ! unat (name3 p)))]\<rparr>) pc"
      using * ** by (simp add: loop_body_def sb) }
qed

theorem arithmetic_wraps_witness:
  "distinct_codes intcode \<and>
   sint (to_SWORD 40000) = wrap16 40000 \<and>
   loop_body intcode (machine (increment_program intcode 0) [32767] []) 0 =
     Next (machine (increment_program intcode 0) [- 32768] []) 0 \<and>
   loop_body intcode (machine [instr (INT_SET_VARIABLE_ADD intcode) 0 1 2 0] [0, 32767, 1] []) 0 =
     Next (machine [instr (INT_SET_VARIABLE_ADD intcode) 0 1 2 0] [- 32768, 32767, 1] []) 0 \<and>
   loop_body intcode
       (machine [instr (INT_SET_VARIABLE_SUBTRACT intcode) 0 1 2 0] [0, - 32768, 1] []) 0 =
     Next (machine [instr (INT_SET_VARIABLE_SUBTRACT intcode) 0 1 2 0] [32767, - 32768, 1] []) 0 \<and>
   loop_body intcode
       (machine [instr (INT_SET_VARIABLE_MULTIPLY intcode) 0 1 2 0] [0, 16384, 2] []) 0 =
     Next (machine [instr (INT_SET_VARIABLE_MULTIPLY intcode) 0 1 2 0] [- 32768, 16384, 2] []) 0 \<and>
   InterpretOneCycle intcode (machine (increment_program intcode 0) [32767] []) =
     Some (Returns (machine (increment_program intcode 0) [- 32768] []))"
  using
    arithmetic_wraps [OF distinct_intcode, of 0 "machine (increment_program intcode 0) [32767] []"
      "instr (INT_INCREMENT_VARIABLE intcode) 0 0 0 0" 0 "[]"]
    arithmetic_wraps [OF distinct_intcode, of 0
      "machine [instr (INT_SET_VARIABLE_ADD intcode) 0 1 2 0] [0, 32767, 1] []"
      "instr (INT_SET_VARIABLE_ADD intcode) 0 1 2 0" 0 "[]"]
    arithmetic_wraps [OF distinct_intcode, of 0
      "machine [instr (INT_SET_VARIABLE_SUBTRACT intcode) 0 1 2 0] [0, - 32768, 1] []"
      "instr (INT_SET_VARIABLE_SUBTRACT intcode) 0 1 2 0" 0 "[]"]
    arithmetic_wraps [OF distinct_intcode, of 0
      "machine [instr (INT_SET_VARIABLE_MULTIPLY intcode) 0 1 2 0] [0, 16384, 2] []"
      "instr (INT_SET_VARIABLE_MULTIPLY intcode) 0 1 2 0" 0 "[]"]
    to_SWORD_32768 to_SWORD_below
  by (simp add: distinct_intcode machine_def increment_program_def in_bounds_def intcode_simps)

section \<open>The program is read only\<close>

lemma switch_body_frame:
  assumes "switch_body h p g pc = Next g' t"
  shows "Program g' = Program g \<and> length (Integers g') = length (Integers g)
       \<and> length (Bits g') = length (Bits g) \<and> GPI g' = GPI g \<and> GPO g' = GPO g"
proof (cases "switch h (op p)")
  case None
  then show ?thesis using assms by (simp add: switch_body_def)
next
  case (Some l)
  then show ?thesis using assms
    by (cases l) (auto simp add: switch_body_def Let_def split: if_splits)
qed

lemma switch_body_Return:
  assumes "switch_body h p g pc = Return g'"
  shows "g' = g"
proof (cases "switch h (op p)")
  case None
  then show ?thesis using assms by (simp add: switch_body_def)
next
  case (Some l)
  then show ?thesis using assms
    by (cases l) (auto simp add: switch_body_def Let_def split: if_splits)
qed

lemma interpret_from_Program:
  assumes "interpret_from h g pc = Some r"
  shows "\<forall>g'. r = Returns g' \<longrightarrow> Program g' = Program g"
proof (rule interpret_from.raw_induct
    [where P = "\<lambda>h g pc r. \<forall>g'. r = Returns g' \<longrightarrow> Program g' = Program g", OF _ assms])
  fix f h g pc r
  assume IH: "\<And>h g pc r. f h g pc = Some r \<Longrightarrow> \<forall>g'. r = Returns g' \<longrightarrow> Program g' = Program g"
    and F: "(if pc < length (Program g)
      then case loop_body h g pc of
           Next g' pc' \<Rightarrow> f h g' (pc' + 1)
           | Return g' \<Rightarrow> Some (Returns g') | Fault \<Rightarrow> Some Undefined
      else Some Undefined) = Some r"
  show "\<forall>g'. r = Returns g' \<longrightarrow> Program g' = Program g"
  proof (cases "pc < length (Program g)")
    case False
    then have "r = Undefined"
      using F by simp
    then show ?thesis
      by simp
  next
    case pc: True
    show ?thesis
    proof (cases "loop_body h g pc")
      case (Next g1 t)
      then have "f h g1 (t + 1) = Some r"
        using F pc by simp
      then have "\<forall>g'. r = Returns g' \<longrightarrow> Program g' = Program g1"
        by (rule IH)
      moreover have "switch_body h (Program g ! pc) g pc = Next g1 t"
        using Next by (simp add: loop_body_def)
      then have "Program g1 = Program g"
        by (simp add: switch_body_frame)
      ultimately show ?thesis
        by metis
    next
      case (Return g1)
      then have "switch_body h (Program g ! pc) g pc = Return g1"
        by (simp add: loop_body_def)
      then have "g1 = g"
        by (rule switch_body_Return)
      moreover have "r = Returns g1"
        using F pc Return by simp
      ultimately show ?thesis
        by auto
    next
      case Fault
      then have "r = Undefined"
        using F pc by simp
      then show ?thesis
        by simp
    qed
  qed
qed

text \<open>
  Claim C8. When a cycle returns, the array \<open>Program\<close> holds what it held when the cycle
  began, whatever the program and the banks.
\<close>

theorem program_never_mutated:
  "InterpretOneCycle h g = Some (Returns g') \<Longrightarrow> Program g' = Program g"
  using interpret_from_Program [of h g 0 "Returns g'"] unfolding InterpretOneCycle_def by blast

theorem program_never_mutated_witness:
  "InterpretOneCycle intcode (machine (increment_program intcode 0) [5] []) =
     Some (Returns (machine (increment_program intcode 0) [6] [])) \<and>
   Program (machine (increment_program intcode 0) [6] []) =
     Program (machine (increment_program intcode 0) [5] [])"
proof -
  have run: "InterpretOneCycle intcode (machine (increment_program intcode 0) [5] []) =
     Some (Returns (machine (increment_program intcode 0) [6] []))"
    using increment_program_run [OF distinct_intcode,
        of "machine (increment_program intcode 0) [5] []" 0 "[]"]
    by (simp add: machine_def in_bounds_def to_SWORD_def)
  show ?thesis
    using run program_never_mutated [OF run] by simp
qed

section \<open>Termination of a cycle\<close>

lemma wf_step:
  assumes d: "distinct_codes h" and pc: "pc < length P" and wf: "well_formed h P"
    and fj: "forward_jumps h P"
    and ob: "operands_in_bounds h (length (Integers g)) (length (Bits g)) (P ! pc)"
  shows "switch_body h (P ! pc) g pc = Return g \<or>
    (\<exists>g' t. switch_body h (P ! pc) g pc = Next g' t \<and> pc < t + 1 \<and> t + 1 < length P
       \<and> Program g' = Program g \<and> length (Integers g') = length (Integers g)
       \<and> length (Bits g') = length (Bits g))"
proof -
  let ?p = "P ! pc"
  have "op ?p \<in> set (codes h)"
    using wf pc by (simp add: well_formed_def)
  then obtain l where l: "switch h (op ?p) = Some l"
    using switch_None [of h "op ?p"] by auto
  have last: "switch h (op (last P)) = Some END_OF_PROGRAM"
    using wf by (simp add: well_formed_def switch_labels [OF d])
  have nl: "pc + 1 < length P" if "l \<noteq> END_OF_PROGRAM"
  proof -
    have "?p \<noteq> last P"
      using l last that by auto
    moreover have "P \<noteq> []"
      using pc by auto
    ultimately have "pc \<noteq> length P - 1"
      using last_conv_nth [of P] by auto
    then show ?thesis using pc by simp
  qed
  have j: "pc \<le> unat (name3 ?p) \<and> unat (name3 ?p) + 1 < length P"
    if "l \<in> {IF_BIT_SET, IF_BIT_CLEAR, IF_VARIABLE_LES_LITERAL,
        IF_VARIABLE_EQUALS_VARIABLE, IF_VARIABLE_GRT_VARIABLE, ELSE}"
  proof -
    have "is_jump h ?p"
      using l that by (simp add: is_jump_def)
    then show ?thesis
      using fj pc unfolding forward_jumps_def by blast
  qed
  show ?thesis
    using l ob nl j
    by (cases l) (simp_all add: switch_body_def Let_def operands_in_bounds_def in_bounds_def)
qed

text \<open>
  Claim C2, amended. A cycle reaches \<open>INT_END_OF_PROGRAM\<close> and returns when the program,
  which stands at the start of the array, is well formed, every address it uses lies
  inside its bank, and every jump goes forward.
\<close>

theorem forward_program_returns:
  assumes d: "distinct_codes h" and P: "Program g = P @ rest" and wf: "well_formed h P"
    and fj: "forward_jumps h P"
    and ob: "\<forall>p \<in> set P. operands_in_bounds h (length (Integers g)) (length (Bits g)) p"
  shows "\<exists>g'. InterpretOneCycle h g = Some (Returns g')"
proof -
  have run: "\<exists>g'. interpret_from h g1 pc = Some (Returns g')"
    if "pc < length P" "Program g1 = Program g" "length (Integers g1) = length (Integers g)"
      "length (Bits g1) = length (Bits g)" for pc g1
    using that
  proof (induction "length P - pc" arbitrary: pc g1 rule: less_induct)
    case less
    have p: "Program g1 ! pc = P ! pc" and len: "pc < length (Program g1)"
      using less.prems P by (simp_all add: nth_append)
    have "operands_in_bounds h (length (Integers g1)) (length (Bits g1)) (P ! pc)"
      using ob less.prems by simp
    from wf_step [OF d less.prems(1) wf fj this]
    show ?case
    proof (elim disjE exE conjE)
      assume "switch_body h (P ! pc) g1 pc = Return g1"
      then show ?thesis
        using interpret_from_Return [OF len, of h g1] p by auto
    next
      fix g2 t
      assume s: "switch_body h (P ! pc) g1 pc = Next g2 t" and t: "pc < t + 1" "t + 1 < length P"
        and f: "Program g2 = Program g1" "length (Integers g2) = length (Integers g1)"
          "length (Bits g2) = length (Bits g1)"
      have "\<exists>g'. interpret_from h g2 (t + 1) = Some (Returns g')"
        using t f less.prems by (intro less.hyps) simp_all
      moreover have "interpret_from h g1 pc = interpret_from h g2 (t + 1)"
        using s p by (intro interpret_from_Next [OF len]) simp_all
      ultimately show ?thesis by simp
    qed
  qed
  have "0 < length P"
    using wf by (simp add: well_formed_def)
  then show ?thesis
    using run [of 0 g] by (simp add: InterpretOneCycle_def)
qed

theorem forward_program_returns_witness:
  "distinct_codes intcode \<and> well_formed intcode (jump_bias_program intcode) \<and>
   forward_jumps intcode (jump_bias_program intcode) \<and>
   (\<exists>g'. InterpretOneCycle intcode (machine (jump_bias_program intcode) [] [0, 0]) =
      Some (Returns g'))"
proof -
  have wf: "well_formed intcode (jump_bias_program intcode)"
    by (simp add: well_formed_def jump_bias_program_def is_jump_def codes_def
        switch_labels [OF distinct_intcode])
  have fj: "forward_jumps intcode (jump_bias_program intcode)"
    by (auto simp add: forward_jumps_def jump_bias_program_def is_jump_def less_Suc_eq
        switch_labels [OF distinct_intcode])
  have ob: "\<forall>p \<in> set (jump_bias_program intcode).
      operands_in_bounds intcode
        (length (Integers (machine (jump_bias_program intcode) [] [0, 0])))
        (length (Bits (machine (jump_bias_program intcode) [] [0, 0]))) p"
    by (simp add: jump_bias_program_def operands_in_bounds_def machine_def
        switch_labels [OF distinct_intcode])
  show ?thesis
    using forward_program_returns [OF distinct_intcode _ wf fj ob, of "[]"]
    by (simp add: distinct_intcode wf fj machine_def)
qed

lemma spin_never_returns:
  assumes "interpret_from h g pc = Some r"
  shows "\<not> (h = intcode \<and> Program g = spin_program intcode \<and> pc = 1)"
proof (rule interpret_from.raw_induct
    [where P = "\<lambda>h g pc r. \<not> (h = intcode \<and> Program g = spin_program intcode \<and> pc = 1)",
      OF _ assms])
  fix f h g pc r
  assume IH: "\<And>h g pc r. f h g pc = Some r \<Longrightarrow>
      \<not> (h = intcode \<and> Program g = spin_program intcode \<and> pc = 1)"
    and F: "(if pc < length (Program g)
      then case loop_body h g pc of
           Next g' pc' \<Rightarrow> f h g' (pc' + 1)
           | Return g' \<Rightarrow> Some (Returns g') | Fault \<Rightarrow> Some Undefined
      else Some Undefined) = Some r"
  show "\<not> (h = intcode \<and> Program g = spin_program intcode \<and> pc = 1)"
  proof
    assume a: "h = intcode \<and> Program g = spin_program intcode \<and> pc = 1"
    then have "loop_body h g pc = Next g 0"
      by (simp add: loop_body_def spin_program_def switch_body_conditionals [OF distinct_intcode])
    then have "f h g 1 = Some r"
      using F a by (simp add: spin_program_def)
    then show False
      using IH a by blast
  qed
qed

text \<open>
  Claim C2 as stated fails. The spin program is well formed in the words of the claim,
  and its cycle never returns: the \<open>INT_ELSE\<close> at index 1 sets the program counter to 0,
  the loop increments it, and the same \<open>INT_ELSE\<close> is next again.
\<close>

theorem well_formed_spin_counterexample:
  "well_formed intcode (spin_program intcode) \<and>
   InterpretOneCycle intcode (machine (spin_program intcode) [] [0]) = None"
proof
  show "well_formed intcode (spin_program intcode)"
    by (simp add: well_formed_def spin_program_def is_jump_def codes_def)
  let ?g = "machine (spin_program intcode) [] [0]"
  let ?g1 = "machine (spin_program intcode) [] [1]"
  have "interpret_from intcode ?g 0 = interpret_from intcode ?g1 1"
    by (rule interpret_from_Next [where pc' = 0])
      (simp_all add: machine_def spin_program_def switch_body_bits [OF distinct_intcode]
        in_bounds_def)
  moreover have "interpret_from intcode ?g1 1 = None"
    using spin_never_returns [of intcode ?g1 1]
    by (cases "interpret_from intcode ?g1 1") (simp_all add: machine_def)
  ultimately show "InterpretOneCycle intcode ?g = None"
    by (simp add: InterpretOneCycle_def)
qed

section \<open>The output of the disassembler\<close>

lemma digit_char_mem: "digit_char d \<in> set ''0123456789abcdef''"
  unfolding digit_char_def by (rule nth_mem) simp

lemma digit_char_not_nl [simp]: "digit_char d \<noteq> nl" "nl \<noteq> digit_char d"
  using digit_char_mem [of d] by (auto simp add: nl_def)

lemma hex_no_nl [simp]: "nl \<notin> set (hex n)"
proof (induction n rule: hex.induct)
  case (1 n)
  then show ?case
    by (subst hex.simps) (auto simp add: )
qed

lemma dec_no_nl [simp]: "nl \<notin> set (dec n)"
proof (induction n rule: dec.induct)
  case (1 n)
  then show ?case
    by (subst dec.simps) (auto simp add: )
qed

lemma fmt_no_nl [simp]:
  "nl \<notin> set (fmt_0x w n)" "nl \<notin> set (fmt_d i)" "nl \<notin> set (x03 a)" "nl \<notin> set (x04 l)"
  by (simp_all add: fmt_0x_def fmt_d_def x03_def x04_def) (simp_all add: nl_def)

lemma label_text_no_nl [simp]: "nl \<notin> set (label_text l p)"
  by (cases l) (simp_all add: arith_def cond_def, simp_all add: nl_def)

lemma line_text_no_nl: "nl \<notin> set (line_text h pc p)"
  by (simp add: line_text_def split: option.splits, simp add: nl_def)

lemma switch_END:
  "switch h w = Some END_OF_PROGRAM \<Longrightarrow> w = INT_END_OF_PROGRAM h"
  by (simp add: switch_def split: if_splits)

lemma disassemble_from_lines:
  assumes "k < length ps" "switch h (op (ps ! k)) = Some END_OF_PROGRAM"
    "\<forall>i<k. switch h (op (ps ! i)) \<noteq> None \<and> switch h (op (ps ! i)) \<noteq> Some END_OF_PROGRAM"
  shows "disassemble_from h pc ps =
    (concat (map (\<lambda>i. line_text h (pc + i) (ps ! i) @ [nl]) [0..<Suc k]), Returns ())"
  using assms
proof (induction ps arbitrary: k pc)
  case Nil
  then show ?case by simp
next
  case (Cons p ps)
  show ?case
  proof (cases k)
    case 0
    then show ?thesis using Cons.prems by simp
  next
    case (Suc k')
    have "switch h (op p) \<noteq> None \<and> switch h (op p) \<noteq> Some END_OF_PROGRAM"
      using Cons.prems(3) Suc by auto
    then obtain l where l: "switch h (op p) = Some l" "l \<noteq> END_OF_PROGRAM"
      by auto
    have "disassemble_from h (pc + 1) ps =
      (concat (map (\<lambda>i. line_text h (pc + 1 + i) (ps ! i) @ [nl]) [0..<Suc k']), Returns ())"
      using Cons.prems Suc by (intro Cons.IH) auto
    moreover have "disassemble_from h pc (p # ps) =
      (let (out, r) = disassemble_from h (pc + 1) ps in (line_text h pc p @ [nl] @ out, r))"
      using l by (cases l) simp_all
    moreover have "[0..<Suc (Suc k')] = 0 # map Suc [0..<Suc k']"
      by (simp add: upt_conv_Cons map_Suc_upt del: upt_Suc)
    ultimately show ?thesis
      using Suc by (simp add: comp_def del: upt_Suc)
  qed
qed

text \<open>
  Claim C9. For a program with known opcodes up to its first \<open>INT_END_OF_PROGRAM\<close>, at
  index \<open>k\<close>, \<open>Disassemble\<close> returns, and what it has printed is one line for each of
  the instructions 0 to \<open>k\<close>, in this order: the text of the instruction, which holds no
  newline, and a newline. The output depends on nothing but \<open>Program\<close>: a call with the
  same array prints the same text.
\<close>

theorem disassemble_lines:
  assumes "distinct_codes h" "k < length (Program g)"
    "op (Program g ! k) = INT_END_OF_PROGRAM h"
    "\<forall>i<k. op (Program g ! i) \<in> set (codes h) \<and> op (Program g ! i) \<noteq> INT_END_OF_PROGRAM h"
  shows "Disassemble h g =
      (concat (map (\<lambda>i. line_text h i (Program g ! i) @ [nl]) [0..<k + 1]), Returns ()) \<and>
    (\<forall>i. nl \<notin> set (line_text h i (Program g ! i))) \<and>
    (Program g' = Program g \<longrightarrow> Disassemble h g' = Disassemble h g)"
proof -
  have e: "switch h (op (Program g ! k)) = Some END_OF_PROGRAM"
    using assms(3) by (simp add: switch_labels [OF assms(1)])
  have n: "switch h (op (Program g ! i)) \<noteq> None \<and>
      switch h (op (Program g ! i)) \<noteq> Some END_OF_PROGRAM" if "i < k" for i
  proof -
    have "op (Program g ! i) \<in> set (codes h)" "op (Program g ! i) \<noteq> INT_END_OF_PROGRAM h"
      using assms(4) that by auto
    then show ?thesis
      using switch_END [of h "op (Program g ! i)"] by (auto simp add: switch_None)
  qed
  show ?thesis
    using disassemble_from_lines [OF assms(2) e, of 0] n
    by (simp add: Disassemble_def line_text_no_nl del: upt_Suc)
qed

lemma replicate_2: "replicate 2 c = [c, c]"
  by (simp add: numeral_2_eq_2)

theorem disassemble_lines_witness:
  "distinct_codes intcode \<and>
   Disassemble intcode (machine (jump_bias_program intcode) [] []) =
     (''000: unless (bits[000] set) jump 001+1'' @ [nl] @ ''001: bits[001] := 1'' @ [nl]
        @ ''002: <end of program>'' @ [nl], Returns ())"
proof -
  let ?g = "machine (jump_bias_program intcode) [] []"
  have h: "\<forall>i<2. op (Program ?g ! i) \<in> set (codes intcode)
      \<and> op (Program ?g ! i) \<noteq> INT_END_OF_PROGRAM intcode"
  proof (intro allI impI)
    fix i :: nat
    assume "i < 2"
    then have "i = 0 \<or> i = 1"
      by auto
    then show "op (Program ?g ! i) \<in> set (codes intcode)
      \<and> op (Program ?g ! i) \<noteq> INT_END_OF_PROGRAM intcode"
      by (auto simp add: machine_def jump_bias_program_def codes_def intcode_simps)
  qed
  have "Disassemble intcode ?g =
      (concat (map (\<lambda>i. line_text intcode i (Program ?g ! i) @ [nl]) [0..<2 + 1]), Returns ())"
    using disassemble_lines [OF distinct_intcode _ _ h, of ?g]
    by (simp add: machine_def jump_bias_program_def)
  also have "[0..<2 + 1] = [0, 1, 2]"
    by (simp add: upt_rec)
  finally show ?thesis
    using replicate_2 [of "CHR ''0''"]
    by (simp add: distinct_intcode machine_def jump_bias_program_def line_text_def
        switch_labels [OF distinct_intcode] fmt_0x_def x03_def hex.simps digit_char_def cond_def)
qed

section \<open>Strings and the C library\<close>

lemma cstr_id: "NUL \<notin> set s \<Longrightarrow> cstr s = s"
  by (auto simp add: cstr_def)

lemma cstr_append: "NUL \<notin> set a \<Longrightarrow> cstr (a @ b) = a @ cstr b"
  unfolding cstr_def by (rule takeWhile_append2) auto

lemma strstr_iff: "strstr s n \<longleftrightarrow> (\<exists>a b. s = a @ n @ b)"
proof (induction s)
  case Nil
  then show ?case by auto
next
  case (Cons c s)
  have "take (length n) (c # s) = n \<longleftrightarrow> (\<exists>b. c # s = n @ b)"
    by (metis append_eq_conv_conj append_take_drop_id)
  moreover have "(\<exists>a b. c # s = a @ n @ b) \<longleftrightarrow> (\<exists>b. c # s = n @ b) \<or> (\<exists>a b. s = a @ n @ b)"
  proof
    assume "\<exists>a b. c # s = a @ n @ b"
    then obtain a b where ab: "c # s = a @ n @ b" by blast
    show "(\<exists>b. c # s = n @ b) \<or> (\<exists>a b. s = a @ n @ b)"
    proof (cases a)
      case Nil
      then show ?thesis using ab by auto
    next
      case (Cons x a')
      then show ?thesis using ab by auto
    qed
  next
    assume "(\<exists>b. c # s = n @ b) \<or> (\<exists>a b. s = a @ n @ b)"
    then show "\<exists>a b. c # s = a @ n @ b"
    proof
      assume "\<exists>b. c # s = n @ b"
      then show ?thesis by (metis append_Nil)
    next
      assume "\<exists>a b. s = a @ n @ b"
      then show ?thesis by (metis append_Cons)
    qed
  qed
  ultimately show ?case
    using Cons.IH by simp
qed

lemma strstr_set: "strstr s n \<Longrightarrow> set n \<subseteq> set s"
  by (auto simp add: strstr_iff)

lemma strstr_prefix: "strstr s (a @ b) \<Longrightarrow> strstr s a"
  unfolding strstr_iff by (metis append.assoc)

lemma strstr_in_part: "strstr m n \<Longrightarrow> strstr (a @ m @ b) n"
  unfolding strstr_iff by (metis append.assoc)

lemma strstr_takeWhile: "strstr (takeWhile P s) n \<Longrightarrow> strstr s n"
  using strstr_in_part [of "takeWhile P s" n "[]" "dropWhile P s"] by simp


lemma strstr_cstr: "strstr (cstr s) n \<Longrightarrow> strstr s n"
  unfolding cstr_def by (rule strstr_takeWhile)


lemma digits_value_takeWhile:
  assumes "\<And>c. isdigit c \<Longrightarrow> P c"
  shows "digits_value (takeWhile P s) = digits_value s"
proof -
  have "takeWhile isdigit (takeWhile P s) = takeWhile isdigit s"
    using assms by (induction s) auto
  then show ?thesis
    by (simp add: digits_value_def)
qed

lemma digits_value_no_digit: "\<not> isdigit c \<Longrightarrow> digits_value (c # s) = 0"
  by (simp add: digits_value_def)

lemma atoi_Cons:
  "atoi (c # s) =
     (if isspace c then atoi s
      else if c = CHR ''-'' then - digits_value s
      else if c = CHR ''+'' then digits_value s
      else digits_value (c # s))"
  by (simp add: atoi_def)

lemma atoi_Nil: "atoi [] = 0"
  by (simp add: atoi_def)

lemma atoi_takeWhile:
  assumes "\<And>c. isspace c \<or> isdigit c \<or> c = CHR ''-'' \<or> c = CHR ''+'' \<Longrightarrow> P c"
  shows "atoi (takeWhile P s) = atoi s"
proof (induction s)
  case Nil
  then show ?case by simp
next
  case (Cons c s)
  have d: "digits_value (takeWhile P t) = digits_value t" for t
    using assms by (intro digits_value_takeWhile) simp
  show ?case
  proof (cases "P c")
    case True
    then show ?thesis
      using Cons d [of s] d [of "c # s"] by (simp add: atoi_Cons)
  next
    case False
    then have "\<not> isspace c" "\<not> isdigit c" "c \<noteq> CHR ''-''" "c \<noteq> CHR ''+''"
      using assms by auto
    then show ?thesis
      using False by (simp add: atoi_Cons atoi_Nil digits_value_no_digit)
  qed
qed

lemma atoi_cstr: "atoi (cstr s) = atoi s"
  unfolding cstr_def by (rule atoi_takeWhile) (auto simp add: NUL_def isspace_def isdigit_def)

lemma atoi_before_comma: "atoi (takeWhile (\<lambda>c. c \<noteq> CHR '','') s) = atoi s"
  by (rule atoi_takeWhile) (auto simp add: isspace_def isdigit_def)

section \<open>The two loops of the loader\<close>

lemma assign_pins_no_match:
  assumes "\<And>k. \<not> strstr tok (pre @ [digit_char k])"
  shows "assign_pins tok addr pre k vs = Returns vs"
  using assms by (induction vs arbitrary: k) (simp_all add: assign_def)

lemma no_GP:
  assumes "\<not> strstr tok ''GP''"
  shows "\<not> strstr tok (''GPI'' @ [c])" "\<not> strstr tok (''GPO'' @ [c])"
  using assms strstr_prefix [of tok "''GP''" "''I'' @ [c]"]
    strstr_prefix [of tok "''GP''" "''O'' @ [c]"] by auto

lemma load_symbols_append:
  "load_symbols (a @ b) g =
     (case load_symbols a g of Returns g' \<Rightarrow> load_symbols b g' | Exits \<Rightarrow> Exits
      | Undefined \<Rightarrow> Undefined)"
  by (induction a arbitrary: g) (simp_all split: result.splits)

lemma load_code_append:
  "load_code ls pc g = Returns (ls', g') \<Longrightarrow> load_code (ls @ rest) pc g = Returns (ls' @ rest, g')"
  by (induction ls pc g rule: load_code.induct)
    (auto simp add: Let_def split: if_splits option.splits)

lemma load_lines_append:
  assumes "load_lines before g = Returns g1"
  shows "load_lines (before @ rest) g = load_symbols rest g1"
proof (cases before)
  case Nil
  then show ?thesis using assms by (simp add: load_lines_def)
next
  case (Cons first ls)
  let ?g0 = "g\<lparr>GPI := replicate 8 (- 1), GPO := replicate 8 (- 1)\<rparr>"
  from assms Cons obtain ls' g' where
    h: "strstr (cstr first) ''$$LDcode''" and c: "load_code ls 0 ?g0 = Returns (ls', g')"
    and s: "load_symbols ls' g' = Returns g1"
    by (auto simp add: load_lines_def split: if_splits result.splits)
  show ?thesis
    using h load_code_append [OF c, of rest] s
    by (simp add: Cons load_lines_def load_symbols_append)
qed

lemma fgets_line:
  "nl \<notin> set l \<Longrightarrow> length l < n \<Longrightarrow> fgets n (l @ nl # r) = (l @ [nl], r)"
proof (induction l arbitrary: n)
  case Nil
  then show ?case by (cases n) simp_all
next
  case (Cons c l)
  then show ?case by (cases n) auto
qed

lemma file_lines_line:
  assumes "nl \<notin> set l" "length l < 79"
  shows "file_lines (l @ nl # r) = (l @ [nl]) # file_lines r"
proof (cases l)
  case Nil
  then show ?thesis
    using fgets_line [OF assms, of r] by (simp add: file_lines.simps)
next
  case (Cons c l')
  then show ?thesis
    using fgets_line [OF assms, of r] by (simp add: file_lines.simps)
qed

lemma atoi_20000: "atoi ('' 20000 us'' @ [nl]) = 20000"
  by (simp add: atoi_def isspace_def digits_value_def isdigit_def nl_def)


lemma LoadProgram_Some: "LoadProgram (Some c) g = load_lines (file_lines c) g"
  by (simp add: LoadProgram_def)


section \<open>The cycle time\<close>

lemma strstr_cycle_GP: "strstr (''$$cycle'' @ x) ''GP'' \<Longrightarrow> strstr x ''GP''"
  by simp

lemma symbol_line_cycle:
  assumes gp: "\<not> strstr rest ''GP''" and r: "int_range (atoi rest)"
  shows "symbol_line (''$$cycle'' @ rest) g =
    (if atoi rest \<noteq> 10000 then Exits else Returns g)"
proof -
  define x where "x = takeWhile (\<lambda>c. c \<notin> set '','') (cstr rest)"
  define tok where "tok = ''$$cycle'' @ x"
  have t: "cstr (''$$cycle'' @ rest) = ''$$cycle'' @ cstr rest"
    by (rule cstr_append) (simp add: NUL_def)
  have tk: "strtok '','' (''$$cycle'' @ cstr rest) =
      (Some tok, drop 1 (dropWhile (\<lambda>c. c \<notin> set '','') (''$$cycle'' @ cstr rest)))"
    by (simp add: strtok_def tok_def x_def)
  have tb: "strtok_buffer '','' (''$$cycle'' @ cstr rest) = tok"
    by (simp add: strtok_buffer_def tok_def x_def)
  have "\<not> strstr x ''GP''"
    using gp strstr_takeWhile strstr_cstr unfolding x_def by blast
  then have ngp: "\<not> strstr tok ''GP''"
    unfolding tok_def using strstr_cycle_GP by blast
  have ap: "assign_pins tok addr ''GPI'' 0 vs = Returns vs"
    "assign_pins tok addr ''GPO'' 0 vs = Returns vs" for addr vs
    by (rule assign_pins_no_match, rule no_GP [OF ngp])+
  have c: "strstr tok ''$$cycle''"
    by (simp add: tok_def)
  have a: "atoi (drop 7 tok) = atoi rest"
    by (simp add: tok_def x_def atoi_before_comma atoi_cstr)
  show ?thesis
    unfolding symbol_line_def Let_def t tk tb using r by (simp add: ap c a)
qed

text \<open>
  Claim C10. Let the lines \<open>before\<close> (a header, instruction records, the line \<open>$$bits\<close>,
  symbol lines) be a file that loads, and let the file hold after them a line that begins
  with \<open>$$cycle\<close> and goes on with a number other than 10000 (one that an \<open>int\<close> holds;
  the line names none of the pin variables). Then \<open>LoadProgram\<close> ends the process,
  whatever follows the line.
\<close>

theorem cycle_time_checked:
  assumes "file_lines contents = before @ (''$$cycle'' @ rest) # after"
    and "load_lines before g = Returns g1"
    and "\<not> strstr rest ''GP''" and "int_range (atoi rest)" and "atoi rest \<noteq> 10000"
  shows "LoadProgram (Some contents) g = Exits"
proof -
  define line where "line = ''$$cycle'' @ rest"
  have "symbol_line line g1 = Exits"
    using symbol_line_cycle [OF assms(3,4), of g1] assms(5) unfolding line_def by simp
  then have "load_symbols (line # after) g1 = Exits"
    by simp
  then have "load_lines (before @ line # after) g = Exits"
    using load_lines_append [OF assms(2), of "line # after"] by simp
  then show ?thesis
    using assms(1) by (simp add: LoadProgram_def line_def)
qed

theorem cycle_time_checked_witness:
  "LoadProgram (Some (''$$LDcode'' @ [nl] @ ''$$bits'' @ [nl] @ ''$$cycle 20000 us'' @ [nl]))
     (machine [] [] []) = Exits"
proof -
  let ?c = "''$$LDcode'' @ [nl] @ ''$$bits'' @ [nl] @ ''$$cycle 20000 us'' @ [nl]"
  let ?before = "[''$$LDcode'' @ [nl], ''$$bits'' @ [nl]]"
  let ?rest = "'' 20000 us'' @ [nl]"
  have "file_lines ?c = (''$$LDcode'' @ [nl]) # file_lines (''$$bits'' @ [nl] @ ''$$cycle 20000 us'' @ [nl])"
    using file_lines_line [of "''$$LDcode''" "''$$bits'' @ [nl] @ ''$$cycle 20000 us'' @ [nl]"]
    by (simp add: nl_def)
  also have "file_lines (''$$bits'' @ [nl] @ ''$$cycle 20000 us'' @ [nl]) =
      (''$$bits'' @ [nl]) # file_lines (''$$cycle 20000 us'' @ [nl])"
    using file_lines_line [of "''$$bits''" "''$$cycle 20000 us'' @ [nl]"]
    by (simp add: nl_def)
  also have "file_lines (''$$cycle 20000 us'' @ [nl]) = [''$$cycle 20000 us'' @ [nl]]"
    using file_lines_line [of "''$$cycle 20000 us''" "[]"]
    by (simp add: nl_def)
  finally have fl: "file_lines ?c = ?before @ (''$$cycle'' @ ?rest) # []"
    by simp
  have ll: "load_lines ?before (machine [] [] []) = Returns (machine [] [] [])"
    by (simp add: load_lines_def cstr_def NUL_def nl_def machine_def)
  have gp: "\<not> strstr ?rest ''GP''"
    by (simp add: nl_def)
  have ir: "int_range (atoi ?rest)" "atoi ?rest \<noteq> 10000"
    using atoi_20000 by (simp_all add: int_range_def)
  show ?thesis
    by (rule cycle_time_checked [OF fl ll gp ir])
qed

section \<open>The symbol lines\<close>


































section \<open>Loading instruction records\<close>

lemma HexDigit_digit_char: "d < 16 \<Longrightarrow> HexDigit (digit_char d) = Some d"
proof -
  assume "d < 16"
  then have "d = 0 \<or> d = 1 \<or> d = 2 \<or> d = 3 \<or> d = 4 \<or> d = 5 \<or> d = 6 \<or> d = 7 \<or> d = 8
      \<or> d = 9 \<or> d = 10 \<or> d = 11 \<or> d = 12 \<or> d = 13 \<or> d = 14 \<or> d = 15"
    by arith
  then show ?thesis
    by (elim disjE) (simp_all add: HexDigit_def digit_char_def tolower_def isdigit_def)
qed

lemma nibbles: "(n mod 16) OR push_bit 4 (n div 16) = (n :: nat)"
proof -
  have "bit (take_bit 4 n OR push_bit 4 (drop_bit 4 n)) k = bit n k" for k
  proof (cases "k < 4")
    case True
    then show ?thesis by (simp add: bit_simps)
  next
    case False
    then have "4 + (k - 4) = k" by simp
    then show ?thesis using False by (simp add: bit_simps)
  qed
  then have "take_bit 4 n OR push_bit 4 (drop_bit 4 n) = n"
    by (intro bit_eqI) simp
  then show ?thesis
    by (simp add: take_bit_eq_mod drop_bit_eq_div)
qed

lemma load_byte_hex:
  assumes "char_at t (2 * i) = digit_char (unat b div 16)"
    "char_at t (2 * i + 1) = digit_char (unat b mod 16)"
  shows "load_byte t i = Some b"
proof -
  have "unat b div 16 < 16"
    using unsigned_less [of b, where 'a = nat] by simp
  then show ?thesis
    using assms by (simp add: load_byte_def HexDigit_digit_char nibbles)
qed

lemma char_at_hex:
  assumes "i < length bs"
  shows "char_at (concat (map hex_byte bs) @ rest) (2 * i) = digit_char (unat (bs ! i) div 16)"
    "char_at (concat (map hex_byte bs) @ rest) (2 * i + 1) = digit_char (unat (bs ! i) mod 16)"
proof -
  have len: "length (concat (map hex_byte xs)) = 2 * length xs" for xs
    by (induction xs) (simp_all add: hex_byte_def)
  have split: "concat (map hex_byte bs) =
      concat (map hex_byte (take i bs)) @ hex_byte (bs ! i) @ concat (map hex_byte (drop (Suc i) bs))"
    using assms by (metis concat.simps(2) concat_append id_take_nth_drop list.simps(9) map_append)
  have l: "length (concat (map hex_byte (take i bs))) = 2 * i"
    using assms by (simp add: len)
  have "(concat (map hex_byte bs) @ rest) ! (2 * i) = digit_char (unat (bs ! i) div 16)"
    by (subst split) (simp add: nth_append l hex_byte_def)
  moreover have "(concat (map hex_byte bs) @ rest) ! (2 * i + 1) = digit_char (unat (bs ! i) mod 16)"
    by (subst split) (simp add: nth_append l hex_byte_def)
  moreover have "2 * i + 1 < length (concat (map hex_byte bs) @ rest)"
    using assms by (simp add: len)
  ultimately show
    "char_at (concat (map hex_byte bs) @ rest) (2 * i) = digit_char (unat (bs ! i) div 16)"
    "char_at (concat (map hex_byte bs) @ rest) (2 * i + 1) = digit_char (unat (bs ! i) mod 16)"
    by (simp_all add: char_at_def)
qed

lemma load_bytes_hex:
  "i + n \<le> length bs \<Longrightarrow>
   load_bytes (concat (map hex_byte bs) @ rest) i n = Some (take n (drop i bs))"
proof (induction n arbitrary: i)
  case 0
  then show ?case by simp
next
  case (Suc n)
  then have i: "i < length bs" by simp
  have "load_byte (concat (map hex_byte bs) @ rest) i = Some (bs ! i)"
    by (rule load_byte_hex) (rule char_at_hex [OF i])+
  moreover have "load_bytes (concat (map hex_byte bs) @ rest) (i + 1) n =
      Some (take n (drop (i + 1) bs))"
    using Suc.prems by (intro Suc.IH) simp
  moreover have "take (Suc n) (drop i bs) = bs ! i # take n (drop (i + 1) bs)"
    using i by (simp add: Cons_nth_drop_Suc [symmetric])
  ultimately show ?case
    by simp
qed

lemma word_of_bytes_split: "word_of_bytes (ucast w) (ucast (drop_bit 8 w)) = (w :: WORD)"
  unfolding word_of_bytes_def
  by (rule bit_word_eqI) (auto simp add: bit_simps)

lemma BinOp_of_bytes_inverse: "BinOp_of_bytes (bytes_of_BinOp r) = r"
  by (simp add: BinOp_of_bytes_def bytes_of_BinOp_def word_of_bytes_split)

lemma hex_chars:
  assumes "c \<in> set (concat (map hex_byte bs))"
  shows "c \<in> set ''0123456789abcdef''"
  using assms digit_char_mem by (auto simp add: hex_byte_def)

lemma hex_length: "length (concat (map hex_byte bs)) = 2 * length bs"
  by (induction bs) (simp_all add: hex_byte_def)

lemma record_line_plain:
  "NUL \<notin> set (record_line r)" "CHR ''$'' \<notin> set (record_line r)"
  using hex_chars [of _ "bytes_of_BinOp r"]
  by (auto simp add: record_line_def NUL_def nl_def)

lemma load_record_line:
  "load_bytes (cstr (record_line r)) 0 sizeof_BinOp = Some (bytes_of_BinOp r)"
proof -
  have "length (bytes_of_BinOp r) = 10"
    by (simp add: bytes_of_BinOp_def)
  then have "load_bytes (concat (map hex_byte (bytes_of_BinOp r)) @ [nl]) 0 10 =
      Some (take 10 (drop 0 (bytes_of_BinOp r)))"
    by (intro load_bytes_hex) simp
  then show ?thesis
    using \<open>length (bytes_of_BinOp r) = 10\<close>
    by (simp add: cstr_id record_line_plain sizeof_BinOp_def) (simp add: record_line_def)
qed

lemma record_line_not_bits: "\<not> strstr (cstr (record_line r)) ''$$bits''"
  using strstr_set [of "record_line r" "''$$bits''"] record_line_plain(2) [of r]
  by (auto simp add: cstr_id record_line_plain)

lemma load_code_records:
  assumes "pc + length rs \<le> length (Program g)" "strstr (cstr bits) ''$$bits''"
  shows "load_code (map record_line rs @ bits # ls) pc g =
    Returns (ls, g\<lparr>Program := take pc (Program g) @ rs @ drop (pc + length rs) (Program g)\<rparr>)"
  using assms(1)
proof (induction rs arbitrary: pc g)
  case Nil
  then show ?case using assms(2) by simp
next
  case (Cons r rs)
  let ?g = "g\<lparr>Program := (Program g)[pc := r]\<rparr>"
  have pc: "pc < length (Program g)"
    using Cons.prems by simp
  have "load_code (map record_line rs @ bits # ls) (pc + 1) ?g =
      Returns (ls, ?g\<lparr>Program := take (pc + 1) (Program ?g) @ rs
        @ drop (pc + 1 + length rs) (Program ?g)\<rparr>)"
    using Cons.prems by (intro Cons.IH) simp
  moreover have "take (pc + 1) ((Program g)[pc := r]) = take pc (Program g) @ [r]"
    using pc by (simp add: take_Suc_conv_app_nth)
  moreover have "drop (pc + 1 + length rs) ((Program g)[pc := r]) =
      drop (pc + 1 + length rs) (Program g)"
    by simp
  ultimately show ?case
    using pc by (simp add: record_line_not_bits load_record_line BinOp_of_bytes_inverse)
qed

lemma file_lines_records:
  "file_lines (concat (map record_line rs) @ tail) = map record_line rs @ file_lines tail"
proof (induction rs)
  case Nil
  then show ?case by simp
next
  case (Cons r rs)
  let ?h = "concat (map hex_byte (bytes_of_BinOp r))"
  have "nl \<notin> set ?h"
    using hex_chars [of nl "bytes_of_BinOp r"] by (auto simp add: nl_def)
  moreover have "length (bytes_of_BinOp r) = 10"
    by (simp add: bytes_of_BinOp_def)
  then have "length ?h < 79"
    by (simp add: hex_length)
  ultimately have "file_lines (?h @ nl # concat (map record_line rs) @ tail) =
      (?h @ [nl]) # file_lines (concat (map record_line rs) @ tail)"
    by (rule file_lines_line)
  moreover have "record_line r = ?h @ [nl]"
    by (simp add: record_line_def)
  ultimately show ?case
    using Cons by simp
qed

lemma LoadProgram_records:
  assumes "length rs \<le> length (Program g)"
  shows "LoadProgram (Some (''$$LDcode'' @ [nl] @ concat (map record_line rs) @ ''$$bits'' @ [nl]
      @ symbols)) g =
    load_symbols (file_lines symbols)
      (g\<lparr>GPI := replicate 8 (- 1), GPO := replicate 8 (- 1),
         Program := rs @ drop (length rs) (Program g)\<rparr>)"
proof -
  let ?g = "g\<lparr>GPI := replicate 8 (- 1), GPO := replicate 8 (- 1)\<rparr>"
  have "file_lines (''$$LDcode'' @ nl # concat (map record_line rs) @ ''$$bits'' @ [nl] @ symbols) =
      (''$$LDcode'' @ [nl]) # file_lines (concat (map record_line rs) @ ''$$bits'' @ [nl] @ symbols)"
    by (rule file_lines_line) (simp_all add: nl_def)
  also have "file_lines (concat (map record_line rs) @ ''$$bits'' @ [nl] @ symbols) =
      map record_line rs @ file_lines (''$$bits'' @ nl # symbols)"
    using file_lines_records [of rs "''$$bits'' @ [nl] @ symbols"] by simp
  also have "file_lines (''$$bits'' @ nl # symbols) = (''$$bits'' @ [nl]) # file_lines symbols"
    by (rule file_lines_line) (simp_all add: nl_def)
  finally have fl: "file_lines (''$$LDcode'' @ [nl] @ concat (map record_line rs) @ ''$$bits'' @ [nl]
      @ symbols) =
      (''$$LDcode'' @ [nl]) # map record_line rs @ (''$$bits'' @ [nl]) # file_lines symbols"
    by simp
  have h: "strstr (cstr (''$$LDcode'' @ [nl])) ''$$LDcode''"
    "strstr (cstr (''$$bits'' @ [nl])) ''$$bits''"
    by (simp_all add: cstr_def NUL_def nl_def)
  have "load_code (map record_line rs @ (''$$bits'' @ [nl]) # file_lines symbols) 0 ?g =
      Returns (file_lines symbols,
        ?g\<lparr>Program := take 0 (Program ?g) @ rs @ drop (0 + length rs) (Program ?g)\<rparr>)"
    using assms h(2) by (intro load_code_records) simp_all
  then show ?thesis
    unfolding LoadProgram_Some fl using h(1) by (simp add: load_lines_def)
qed

lemma disassemble_from_unknown:
  assumes "k < length ps" "switch h (op (ps ! k)) = None"
    "\<forall>i<k. switch h (op (ps ! i)) \<noteq> None \<and> switch h (op (ps ! i)) \<noteq> Some END_OF_PROGRAM"
  shows "snd (disassemble_from h pc ps) = Exits"
  using assms
proof (induction ps arbitrary: k pc)
  case Nil
  then show ?case by simp
next
  case (Cons p ps)
  show ?case
  proof (cases k)
    case 0
    then show ?thesis using Cons.prems by simp
  next
    case (Suc k')
    have "switch h (op p) \<noteq> None \<and> switch h (op p) \<noteq> Some END_OF_PROGRAM"
      using Cons.prems(3) Suc by auto
    then obtain l where l: "switch h (op p) = Some l" "l \<noteq> END_OF_PROGRAM"
      by auto
    have "snd (disassemble_from h (pc + 1) ps) = Exits"
      using Cons.prems Suc by (intro Cons.IH [of k']) auto
    moreover have "disassemble_from h pc (p # ps) =
      (let (out, r) = disassemble_from h (pc + 1) ps in (line_text h pc p @ [nl] @ out, r))"
      using l by (cases l) simp_all
    ultimately show ?thesis
      by (simp add: split_def)
  qed
qed

text \<open>
  Claim C4, amended. \<open>LoadProgram\<close> never looks at an opcode. A file with the header,
  the lines of any instructions \<open>rs\<close> that the array has room for, and the line \<open>$$bits\<close>
  loads these instructions as they are into \<open>Program\<close>, whatever their opcodes, and goes
  on with the symbol lines. It is \<open>Disassemble\<close> that ends the process at an opcode
  outside the set, when no \<open>INT_END_OF_PROGRAM\<close> stands before it.
\<close>

theorem load_accepts_any_opcode:
  "(length rs \<le> length (Program g) \<longrightarrow>
      LoadProgram (Some (''$$LDcode'' @ [nl] @ concat (map record_line rs) @ ''$$bits'' @ [nl]
        @ symbols)) g =
      load_symbols (file_lines symbols)
        (g\<lparr>GPI := replicate 8 (- 1), GPO := replicate 8 (- 1),
           Program := rs @ drop (length rs) (Program g)\<rparr>)) \<and>
   (k < length (Program g') \<and> op (Program g' ! k) \<notin> set (codes h) \<and>
    (\<forall>i<k. op (Program g' ! i) \<in> set (codes h) \<and> op (Program g' ! i) \<noteq> INT_END_OF_PROGRAM h) \<longrightarrow>
      snd (Disassemble h g') = Exits)"
proof (intro conjI impI; (elim conjE)?)
  assume "length rs \<le> length (Program g)"
  then show "LoadProgram (Some (''$$LDcode'' @ [nl] @ concat (map record_line rs) @ ''$$bits'' @ [nl]
        @ symbols)) g =
      load_symbols (file_lines symbols)
        (g\<lparr>GPI := replicate 8 (- 1), GPO := replicate 8 (- 1),
           Program := rs @ drop (length rs) (Program g)\<rparr>)"
    by (rule LoadProgram_records)
next
  assume k: "k < length (Program g')" and u: "op (Program g' ! k) \<notin> set (codes h)"
    and b: "\<forall>i<k. op (Program g' ! i) \<in> set (codes h) \<and> op (Program g' ! i) \<noteq> INT_END_OF_PROGRAM h"
  have "switch h (op (Program g' ! k)) = None"
    using u by (simp add: switch_None)
  moreover have "\<forall>i<k. switch h (op (Program g' ! i)) \<noteq> None \<and>
      switch h (op (Program g' ! i)) \<noteq> Some END_OF_PROGRAM"
    using b switch_END [of h] by (auto simp add: switch_None)
  ultimately show "snd (Disassemble h g') = Exits"
    unfolding Disassemble_def using k by (intro disassemble_from_unknown)
qed

lemma record_line_examples:
  "record_line (instr 255 0 0 0 0) = ''ff000000000000000000'' @ [nl]"
  "record_line (instr 0 0 0 0 0) = ''00000000000000000000'' @ [nl]"
  by (simp_all add: record_line_def bytes_of_BinOp_def hex_byte_def digit_char_def)

theorem load_accepts_any_opcode_witness:
  "LoadProgram (Some (''$$LDcode'' @ [nl] @ ''00000000000000000000'' @ [nl] @ ''$$bits'' @ [nl]))
     (machine [instr 255 0 0 0 0] [] []) = Returns (machine [instr 0 0 0 0 0] [] []) \<and>
   snd (Disassemble intcode (machine [instr 0 0 0 0 0] [] [])) = Exits"
  using load_accepts_any_opcode [of "[instr 0 0 0 0 0]" "machine [instr 255 0 0 0 0] [] []" "[]"
      0 "machine [instr 0 0 0 0 0] [] []" intcode]
  by (simp add: record_line_examples machine_def codes_def intcode_simps)

text \<open>
  Claim C4 as stated fails. The file holds an \<open>INT_END_OF_PROGRAM\<close> and then a record
  with opcode 0, which is none of the set: \<open>LoadProgram\<close> returns with both in \<open>Program\<close>,
  and \<open>Disassemble\<close>, which stops at the first instruction, returns as well.
\<close>

theorem unknown_opcode_loads_counterexample:
  "LoadProgram (Some (''$$LDcode'' @ [nl] @ ''ff000000000000000000'' @ [nl]
       @ ''00000000000000000000'' @ [nl] @ ''$$bits'' @ [nl]))
     (machine [instr 0 0 0 0 0, instr 0 0 0 0 0] [] []) =
     Returns (machine [instr 255 0 0 0 0, instr 0 0 0 0 0] [] []) \<and>
   switch intcode (op (instr 0 0 0 0 0)) = None \<and>
   Disassemble intcode (machine [instr 255 0 0 0 0, instr 0 0 0 0 0] [] []) =
     (''000: <end of program>'' @ [nl], Returns ())"
proof (intro conjI)
  show "LoadProgram (Some (''$$LDcode'' @ [nl] @ ''ff000000000000000000'' @ [nl]
       @ ''00000000000000000000'' @ [nl] @ ''$$bits'' @ [nl]))
     (machine [instr 0 0 0 0 0, instr 0 0 0 0 0] [] []) =
     Returns (machine [instr 255 0 0 0 0, instr 0 0 0 0 0] [] [])"
    using LoadProgram_records [of "[instr 255 0 0 0 0, instr 0 0 0 0 0]"
        "machine [instr 0 0 0 0 0, instr 0 0 0 0 0] [] []" "[]"]
    by (simp add: record_line_examples machine_def)
  show "switch intcode (op (instr 0 0 0 0 0)) = None"
    by (simp add: switch_None codes_def intcode_simps)
  show "Disassemble intcode (machine [instr 255 0 0 0 0, instr 0 0 0 0 0] [] []) =
     (''000: <end of program>'' @ [nl], Returns ())"
    using replicate_2 [of "CHR ''0''"]
    by (simp add: Disassemble_def machine_def switch_labels [OF distinct_intcode, unfolded intcode_simps]
        line_text_def fmt_0x_def hex.simps digit_char_def)
qed

end
